theory Spec2Isabelle
  imports Main "HOL-Library.Signed_Division"
begin

unbundle bit_operations_syntax

section \<open>The heap of myHeap.c\<close>

text \<open>
  The allocator keeps two globals, \<open>heapStart\<close> and \<open>allocsize\<close>, the static flag
  \<open>allocated_once\<close> of \<open>myInit\<close>, and the memory it reads and writes through
  \<open>blockHeader *\<close>. A \<open>blockHeader\<close> is one \<open>int\<close> (\<open>size_status\<close>), so
  \<open>sizeof(blockHeader) = 4\<close> and the memory is modelled as the \<open>int\<close> stored at each
  address. Addresses and the \<open>int\<close> values in memory are mathematical integers: the
  code is written for 32-bit pointers (\<open>(unsigned int)ptr\<close>), and the sums and
  differences of headers, footers and block addresses agree with the code in every
  execution in which they stay in range. Where a value is computed from an argument
  of the call and leaves the range of \<open>int\<close> for arguments in that range, at lines
  109 and 111 of \<open>myAlloc\<close> and at lines 282 and 300 of \<open>myInit\<close>, the conversion to
  \<open>int\<close> is written out: \<open>int_of\<close>, the value modulo \<open>2^32\<close> in two's complement.
  \<open>/\<close> and \<open>%\<close> on \<open>int\<close> truncate towards zero: \<open>sdiv\<close> and \<open>smod\<close>. Every
  address the functions below compute from a 4-aligned \<open>heapStart\<close> and 8-aligned
  pointer arguments is 4-aligned, except the predecessor address of \<open>coalesce\<close>,
  which is as aligned as the footer value it reads.
\<close>

record heap =
  heapStart :: int
  allocsize :: int
  allocated_once :: int
  mem :: "int \<Rightarrow> int"

definition NULL :: int where
  "NULL = 0"

definition MAP_FAILED :: int where
  "MAP_FAILED = -1"

definition int_of :: "int \<Rightarrow> int" where
  "int_of x = (x + 2147483648) mod 4294967296 - 2147483648"

subsection \<open>myAlloc\<close>

text \<open>Lines 117-124: the header value with the two status bits taken off.\<close>

definition trueSize_of :: "int \<Rightarrow> int" where
  "trueSize_of size_status =
     (let trueSize = size_status;
          trueSize = (if size_status AND 1 \<noteq> 0 then trueSize - 1 else trueSize);
          trueSize = (if size_status AND 2 \<noteq> 0 then trueSize - 2 else trueSize)
      in trueSize)"

text \<open>
  Lines 125-136: one round of the best-fit search. The loop variables are
  \<open>(memoryAvailable, block, previousBlock)\<close>.
\<close>

definition best_fit_step :: "int \<Rightarrow> int \<Rightarrow> int \<Rightarrow> int \<times> int \<times> int \<Rightarrow> int \<times> int \<times> int" where
  "best_fit_step size1 traverse size_status st =
     (case st of (memoryAvailable, block, previousBlock) \<Rightarrow>
        if size_status smod 2 = 0
           \<and> trueSize_of size_status \<ge> size1
           \<and> (memoryAvailable = -1 \<or> memoryAvailable > trueSize_of size_status)
        then (trueSize_of size_status, traverse, if size_status AND 2 \<noteq> 0 then 2 else 0)
        else (memoryAvailable, block, previousBlock))"

text \<open>Lines 116-138: the while loop. It returns nothing when it never meets the end mark.\<close>

partial_function (option) best_fit ::
    "(int \<Rightarrow> int) \<Rightarrow> int \<Rightarrow> int \<Rightarrow> int \<times> int \<times> int \<Rightarrow> (int \<times> int \<times> int) option" where
  "best_fit m size1 traverse st =
     (if m traverse = 1 then Some st
      else best_fit m size1 (traverse + trueSize_of (m traverse))
             (best_fit_step size1 traverse (m traverse) st))"

text \<open>
  Lines 109-112: header added, rounded up to a multiple of 8. \<open>sizeof\<close> is unsigned,
  so line 109 adds without overflow and converts the sum to \<open>int\<close>; the sum of line
  111 is written with the same conversion. For a request of more than 2147483636
  bytes the result is negative.
\<close>

definition round_size :: "int \<Rightarrow> int" where
  "round_size size0 =
     (let size1 = int_of (4 + size0)
      in if size1 smod 8 \<noteq> 0 then int_of (size1 + 8 - size1 smod 8) else size1)"

text \<open>
  Lines 99-157. The result is the returned pointer (\<open>NULL\<close> on failure) and the heap
  after the call; \<open>None\<close> when the call does not return. That is so when the search
  loop does not end, and when \<open>size\<close> is negative after line 113: the search then
  takes any free block, line 140 stores through \<open>block\<close>, which is \<open>NULL\<close> when no
  block is free, and line 142 loads from \<open>block + size\<close>, 2 GiB before the block;
  the behaviour is undefined and the process faults.
\<close>

definition myAlloc :: "heap \<Rightarrow> int \<Rightarrow> (int \<times> heap) option" where
  "myAlloc s size0 =
     (if size0 \<le> 0 then Some (NULL, s)
      else
        let size1 = round_size size0 in
        if allocsize s < size1 then Some (NULL, s)
        else if size1 < 0 then None
        else
          case best_fit (mem s) size1 (heapStart s) (-1, NULL, 0) of
            None \<Rightarrow> None
          | Some (memoryAvailable, block, previousBlock) \<Rightarrow>
              if memoryAvailable > size1 then
                let m1 = (mem s)(block := size1 + previousBlock + 1);
                    sp = block + size1
                in if m1 sp = 1 then Some (block + 4, s\<lparr>mem := m1\<rparr>)
                   else Some (block + 4, s\<lparr>mem := m1(sp := memoryAvailable - size1 + 2)\<rparr>)
              else if memoryAvailable = size1 then
                let m1 = (mem s)(block := mem s block + 1);
                    sp = block + size1
                in if m1 sp = 1 then Some (block + 4, s\<lparr>mem := m1\<rparr>)
                   else Some (block + 4, s\<lparr>mem := m1(sp := m1 sp + 2)\<rparr>)
              else Some (NULL, s))"

subsection \<open>myFree\<close>

text \<open>Lines 171-197. The result is the returned status (0 or -1) and the heap after the call.\<close>

definition myFree :: "heap \<Rightarrow> int \<Rightarrow> int \<times> heap" where
  "myFree s ptr =
     (if ptr = NULL then (-1, s)
      else if ptr mod 8 \<noteq> 0 then (-1, s)
      else if heapStart s > ptr then (-1, s)
      else if mem s (ptr - 4) smod 2 \<noteq> 1 then (-1, s)
      else
        let currentBlock = ptr - 4;
            m1 = (mem s)(currentBlock := mem s currentBlock - 1);
            currBlock_size = (m1 currentBlock sdiv 8) * 8;
            footer = currentBlock + currBlock_size - 4;
            m2 = m1(footer := currBlock_size);
            nextBlock = currentBlock + (m2 currentBlock sdiv 8) * 8;
            m3 = (if m2 nextBlock \<noteq> 1 then m2(nextBlock := m2 nextBlock - 2) else m2)
        in (0, s\<lparr>mem := m3\<rparr>))"

subsection \<open>coalesce\<close>

text \<open>
  Lines 218-226: at a free block, the next block is taken in when it is free too.
\<close>

definition merge_next :: "(int \<Rightarrow> int) \<Rightarrow> int \<Rightarrow> (int \<Rightarrow> int)" where
  "merge_next m currentBlock =
     (let nextBlock = currentBlock + (m currentBlock sdiv 8) * 8
      in if m nextBlock smod 2 = 0 \<and> m nextBlock \<noteq> 1 then
           let m0 = m(currentBlock := m currentBlock + (m nextBlock sdiv 8) * 8);
               temporarySize = (m0 currentBlock sdiv 8) * 8
           in m0(currentBlock + temporarySize - 4 := temporarySize)
         else m)"

text \<open>
  Lines 228-235: when the header has neither status bit, the block is added to the
  block that the footer before it points to.
\<close>

definition merge_prev :: "(int \<Rightarrow> int) \<Rightarrow> int \<Rightarrow> (int \<Rightarrow> int)" where
  "merge_prev m currentBlock =
     (if m currentBlock smod 8 = 0 then
        let p_bit = m (currentBlock - 4);
            p = currentBlock - p_bit;
            m2 = m(p := m p + (m currentBlock sdiv 8) * 8);
            temporarySize = (m2 p sdiv 8) * 8
        in m2(p + temporarySize - 4 := temporarySize)
      else m)"

text \<open>Lines 215-239: one round of the loop, then the loop.\<close>

definition coalesce_round :: "(int \<Rightarrow> int) \<Rightarrow> int \<Rightarrow> (int \<Rightarrow> int)" where
  "coalesce_round m currentBlock =
     (if m currentBlock smod 2 = 0 then merge_prev (merge_next m currentBlock) currentBlock
      else m)"

partial_function (option) coalesce_loop :: "(int \<Rightarrow> int) \<Rightarrow> int \<Rightarrow> (int \<Rightarrow> int) option" where
  "coalesce_loop m currentBlock =
     (if m currentBlock = 1 then Some m
      else coalesce_loop (coalesce_round m currentBlock)
             (currentBlock + (coalesce_round m currentBlock currentBlock sdiv 8) * 8))"

definition coalesce :: "heap \<Rightarrow> (int \<times> heap) option" where
  "coalesce s =
     (case coalesce_loop (mem s) (heapStart s) of
        None \<Rightarrow> None
      | Some m \<Rightarrow> Some (0, s\<lparr>mem := m\<rparr>))"

subsection \<open>myInit\<close>

text \<open>
  Lines 252-322. What the operating system answers is an argument: \<open>pagesize\<close> is
  the result of \<open>getpagesize()\<close>, \<open>fd\<close> of \<open>open\<close>, \<open>mmap_ptr\<close> of \<open>mmap\<close>. A
  successful \<open>mmap\<close> of \<open>/dev/zero\<close> gives \<open>allocsize\<close> zero bytes at \<open>mmap_ptr\<close>.
\<close>

definition myInit :: "heap \<Rightarrow> int \<Rightarrow> int \<Rightarrow> int \<Rightarrow> int \<Rightarrow> int \<times> heap" where
  "myInit s pagesize fd mmap_ptr sizeOfRegion =
     (if 0 \<noteq> allocated_once s then (-1, s)
      else if sizeOfRegion \<le> 0 then (-1, s)
      else
        let padsize = sizeOfRegion smod pagesize;
            padsize = (pagesize - padsize) smod pagesize;
            s1 = s\<lparr>allocsize := int_of (sizeOfRegion + padsize)\<rparr>
        in if -1 = fd then (-1, s1)
           else if MAP_FAILED = mmap_ptr then (-1, s1\<lparr>allocated_once := 0\<rparr>)
           else
             let m0 = (\<lambda>a. if mmap_ptr \<le> a \<and> a < mmap_ptr + allocsize s1 then 0 else mem s1 a);
                 s2 = s1\<lparr>allocated_once := 1, allocsize := int_of (allocsize s1 - 8),
                         heapStart := mmap_ptr + 4\<rparr>;
                 endMark = heapStart s2 + allocsize s2;
                 m1 = m0(endMark := 1);
                 m2 = m1(heapStart s2 := allocsize s2);
                 m3 = m2(heapStart s2 := m2 (heapStart s2) + 2);
                 footer = heapStart s2 + allocsize s2 - 4;
                 m4 = m3(footer := allocsize s2)
             in (0, s2\<lparr>mem := m4\<rparr>))"

subsection \<open>dispMem\<close>

text \<open>
  Lines 356-389: the walk over the block list, with the row it prints for each block:
  \<open>(t_begin, is_used, previous used, t_size)\<close>.
\<close>

definition disp_row :: "int \<Rightarrow> int \<Rightarrow> int \<times> bool \<times> bool \<times> int" where
  "disp_row current size_status =
     (let t_size = size_status;
          is_used = (t_size AND 1 \<noteq> 0);
          t_size = (if is_used then t_size - 1 else t_size);
          p_used = (t_size AND 2 \<noteq> 0);
          t_size = (if p_used then t_size - 2 else t_size)
      in (current, is_used, p_used, t_size))"

partial_function (option) dispMem_loop ::
    "(int \<Rightarrow> int) \<Rightarrow> int \<Rightarrow> (int \<times> bool \<times> bool \<times> int) list option" where
  "dispMem_loop m current =
     (if m current = 1 then Some []
      else Option.bind (dispMem_loop m (current + snd (snd (snd (disp_row current (m current))))))
             (\<lambda>rows. Some (disp_row current (m current) # rows)))"

definition dispMem :: "heap \<Rightarrow> (int \<times> bool \<times> bool \<times> int) list option" where
  "dispMem s = dispMem_loop (mem s) (heapStart s)"

declare best_fit.simps [code]

declare coalesce_loop.simps [code]

declare dispMem_loop.simps [code]

subsection \<open>The program that calls the allocator\<close>

text \<open>A store of the program through a pointer to \<open>int\<close>: \<open>*(int *)a = v\<close>.\<close>

definition store :: "heap \<Rightarrow> int \<Rightarrow> int \<Rightarrow> heap" where
  "store s a v = s\<lparr>mem := (mem s)(a := v)\<rparr>"

subsection \<open>A run of the program\<close>

text \<open>
  The process before \<open>myInit\<close>: the globals are zero. \<open>heap1\<close> is the heap after
  \<open>myInit(4096)\<close> with 4096-byte pages and the mapping placed at address 65536.
\<close>

definition heap0 :: heap where
  "heap0 = \<lparr>heapStart = 0, allocsize = 0, allocated_once = 0, mem = (\<lambda>a. 0)\<rparr>"

definition heap1 :: heap where
  "heap1 = snd (myInit heap0 4096 3 65536 4096)"

text \<open>
  \<open>heap2\<close> is the heap after \<open>myAlloc(100)\<close> in \<open>heap1\<close>, which returns 65544 and
  splits the one free block.
\<close>

definition heap2 :: heap where
  "heap2 = \<lparr>heapStart = 65540, allocsize = 4088, allocated_once = 1,
            mem = (\<lambda>a. 0)(65540 := 107, 65644 := 3986, 69624 := 4088, 69628 := 1)\<rparr>"

text \<open>
  \<open>heap3\<close> is the heap after \<open>myFree(65544)\<close> in \<open>heap2\<close>, which leaves two free
  blocks side by side.
\<close>

definition heap3 :: heap where
  "heap3 = snd (myFree heap2 65544)"

text \<open>
  \<open>heap4\<close> is the heap after \<open>myAlloc(50)\<close> in \<open>heap3\<close>: the request takes 56
  bytes of the free block of 104 bytes at \<open>heapStart\<close>, the smaller of the two.
\<close>

definition heap4 :: heap where
  "heap4 = \<lparr>heapStart = 65540, allocsize = 4088, allocated_once = 1,
             mem = (\<lambda>a. 0)(65540 := 59, 65596 := 50, 65640 := 104, 65644 := 3984,
                              69624 := 4088, 69628 := 1)\<rparr>"

text \<open>
  A second run, written with \<open>arena m\<close>, the heap of the run with the memory
  \<open>m\<close>. \<open>heap6\<close>: after \<open>myInit(4096)\<close>, three calls \<open>myAlloc(100)\<close>, which
  return 65544, 65648 and 65752, and \<open>myFree\<close> of the three pointers in that order.
  Four free blocks stand side by side. \<open>heap7\<close> is what \<open>coalesce\<close> makes of it,
  by a merge with the next block at 65540 and at 65748 and a merge with the
  previous block at 65748.
\<close>

definition arena :: "(int \<Rightarrow> int) \<Rightarrow> heap" where
  "arena m = \<lparr>heapStart = 65540, allocsize = 4088, allocated_once = 1, mem = m\<rparr>"

definition heap6 :: heap where
  "heap6 = arena ((\<lambda>a. 0)(65540 := 106, 65640 := 104, 65644 := 104, 65744 := 104,
                          65748 := 104, 65848 := 104, 65852 := 3776, 69624 := 4088, 69628 := 1))"

definition heap7 :: heap where
  "heap7 = arena ((\<lambda>a. 0)(65540 := 4090, 65640 := 104, 65644 := 104, 65744 := 208,
                          65748 := 3880, 65848 := 104, 65852 := 3776, 69624 := 4088, 69628 := 1))"

text \<open>
  A third run. \<open>heap5\<close>: after \<open>myInit(4096)\<close> and \<open>myFree(69632)\<close>, a pointer to
  the first byte after the mapping; the word before it is the end mark.
\<close>

definition heap5 :: heap where
  "heap5 = arena ((\<lambda>a. 0)(65540 := 4090, 69624 := 0, 69628 := -2))"

text \<open>
  A fourth run: \<open>myInit(4096)\<close>, \<open>p = myAlloc(100)\<close>, the store \<open>((int *)p)[13] = 1\<close>
  into the block, and \<open>myFree(p)\<close>, which gives \<open>heap3s\<close>; then \<open>myAlloc(50)\<close>,
  which gives \<open>heap4s\<close>.
\<close>

definition heap3s :: heap where
  "heap3s = arena ((\<lambda>a. 0)(65540 := 106, 65596 := 1, 65640 := 104, 65644 := 3984,
                           69624 := 4088, 69628 := 1))"

definition heap4s :: heap where
  "heap4s = arena ((\<lambda>a. 0)(65540 := 59, 65596 := 1, 65640 := 104, 65644 := 3984,
                           69624 := 4088, 69628 := 1))"

text \<open>
  A fifth run: \<open>myInit(4096)\<close>, \<open>a = myAlloc(100)\<close>, \<open>b = myAlloc(4)\<close>,
  \<open>c = myAlloc(4)\<close>, which return 65544, 65648 and 65656; the stores
  \<open>*(int *)b = 8\<close> and \<open>*(int *)c = 1\<close>; then twice the store \<open>((int *)a)[1] = 97\<close>
  followed by \<open>myFree((char *)a + 8)\<close>, a pointer into the block at \<open>a\<close>. That gives
  \<open>heap8\<close>, and \<open>myAlloc(1)\<close> then gives \<open>heap9\<close>.
\<close>

definition heap8 :: heap where
  "heap8 = arena ((\<lambda>a. 0)(65540 := 107, 65548 := 96, 65640 := 96, 65644 := 7, 65648 := 8,
                          65652 := 11, 65656 := 1, 65660 := 3970, 69624 := 4088, 69628 := 1))"

definition heap9 :: heap where
  "heap9 = arena ((\<lambda>a. 0)(65540 := 107, 65548 := 96, 65640 := 96, 65644 := 7, 65648 := 9,
                          65652 := 11, 65656 := 1, 65660 := 3970, 69624 := 4088, 69628 := 1))"

section \<open>Notions for the proofs\<close>

subsection \<open>Headers\<close>

text \<open>
  The layout of a header (lines 19-29): the size, a multiple of 8, with the allocated
  bit and the previous-allocated bit in the two lowest bits.
\<close>

definition hdr :: "int \<Rightarrow> bool \<Rightarrow> bool \<Rightarrow> int" where
  "hdr sz al p = sz + (if al then 1 else 0) + (if p then 2 else 0)"

subsection \<open>The block list behind a heap\<close>

text \<open>
  A heap is read as a list of blocks, each with its size and allocated bit, laid out
  from an address on: \<open>chain\<close> says that the header of every block is in memory,
  with the previous-allocated bit equal to the allocated bit of the block before.
  \<open>rows_of\<close> is what \<open>dispMem\<close> prints for such a list.
\<close>

type_synonym blocks = "(int \<times> bool) list"

fun span :: "blocks \<Rightarrow> int" where
  "span [] = 0"
| "span ((sz, al) # bs) = sz + span bs"

fun lastp :: "bool \<Rightarrow> blocks \<Rightarrow> bool" where
  "lastp p [] = p"
| "lastp p ((sz, al) # bs) = lastp al bs"

fun sizes_ok :: "blocks \<Rightarrow> bool" where
  "sizes_ok [] = True"
| "sizes_ok ((sz, al) # bs) = (8 \<le> sz \<and> 8 dvd sz \<and> sizes_ok bs)"

fun chain :: "(int \<Rightarrow> int) \<Rightarrow> int \<Rightarrow> bool \<Rightarrow> blocks \<Rightarrow> bool" where
  "chain m a p [] = True"
| "chain m a p ((sz, al) # bs) = (m a = hdr sz al p \<and> chain m (a + sz) al bs)"

fun starts :: "int \<Rightarrow> blocks \<Rightarrow> int list" where
  "starts a [] = []"
| "starts a ((sz, al) # bs) = a # starts (a + sz) bs"

fun rows_of :: "int \<Rightarrow> bool \<Rightarrow> blocks \<Rightarrow> (int \<times> bool \<times> bool \<times> int) list" where
  "rows_of a p [] = []"
| "rows_of a p ((sz, al) # bs) = (a, al, p, sz) # rows_of (a + sz) al bs"

subsection \<open>The best-fit search on a block list\<close>

text \<open>
  \<open>pick\<close> is the search run over a block list instead of the memory.
  \<open>found\<close> says what its loop variables hold after the blocks \<open>seen\<close>, which
  start at \<open>a0\<close>: either -1 and no free block of \<open>seen\<close> is large enough, or the
  size and address of a free block that is strictly smaller than every fitting block
  before it and no larger than every fitting block after it.
\<close>

fun pick :: "int \<Rightarrow> int \<Rightarrow> bool \<Rightarrow> blocks \<Rightarrow> int \<times> int \<times> int \<Rightarrow> int \<times> int \<times> int" where
  "pick size1 a p [] st = st"
| "pick size1 a p ((sz, al) # bs) st =
     pick size1 (a + sz) al bs (best_fit_step size1 a (hdr sz al p) st)"

definition candidate :: "int \<Rightarrow> int \<times> bool \<Rightarrow> bool" where
  "candidate size1 b = (\<not> snd b \<and> size1 \<le> fst b)"

definition is_best :: "int \<Rightarrow> blocks \<Rightarrow> int \<Rightarrow> blocks \<Rightarrow> bool" where
  "is_best size1 pre sz post \<longleftrightarrow>
     size1 \<le> sz \<and> (\<forall>b \<in> set pre. candidate size1 b \<longrightarrow> sz < fst b)
     \<and> (\<forall>b \<in> set post. candidate size1 b \<longrightarrow> sz \<le> fst b)"

definition found :: "int \<Rightarrow> int \<Rightarrow> blocks \<Rightarrow> int \<times> int \<times> int \<Rightarrow> bool" where
  "found size1 a0 seen st \<longleftrightarrow>
     (case st of (memoryAvailable, block, previousBlock) \<Rightarrow>
        (memoryAvailable = -1 \<and> (\<forall>b \<in> set seen. \<not> candidate size1 b))
        \<or> (\<exists>pre mid. seen = pre @ (memoryAvailable, False) # mid
               \<and> block = a0 + span pre
               \<and> previousBlock = (if lastp True pre then 2 else 0)
               \<and> is_best size1 pre memoryAvailable mid))"

subsection \<open>Heaps that are block lists\<close>

text \<open>
  \<open>heap_blocks s bs\<close>: the heap \<open>s\<close> is the block list \<open>bs\<close> from \<open>heapStart\<close> to
  the first word that holds 1, which every loop of the code takes for the end mark. It
  stands at most \<open>allocsize\<close> bytes after \<open>heapStart\<close>. Nothing is said of the
  words that are not headers: the payload of a block, a footer.
\<close>

definition heap_blocks :: "heap \<Rightarrow> blocks \<Rightarrow> bool" where
  "heap_blocks s bs \<longleftrightarrow>
     0 < heapStart s \<and> heapStart s mod 8 = 4 \<and> sizes_ok bs \<and> bs \<noteq> []
     \<and> chain (mem s) (heapStart s) True bs \<and> span bs \<le> allocsize s
     \<and> mem s (heapStart s + span bs) = 1"

text \<open>
  What \<open>myAlloc\<close> puts in the place of the free block of \<open>sz\<close> bytes it has chosen
  and of the blocks \<open>post\<close> after it. In the split case \<open>stale\<close> is the word it finds
  where the header of the remainder goes: when that word is 1 the code returns at
  line 143, the word stays, and the block list ends there.
\<close>

definition alloc_part :: "int \<Rightarrow> int \<Rightarrow> int \<Rightarrow> blocks \<Rightarrow> blocks" where
  "alloc_part size1 sz stale post =
     (if size1 < sz then
        (if stale = 1 then [(size1, True)] else (size1, True) # (sz - size1, False) # post)
      else (sz, True) # post)"

subsection \<open>coalesce on a block list\<close>

text \<open>No two blocks next to each other in the list are both free.\<close>

fun no_adj_free :: "blocks \<Rightarrow> bool" where
  "no_adj_free ((s1, a1) # (s2, a2) # bs) = ((a1 \<or> a2) \<and> no_adj_free ((s2, a2) # bs))"
| "no_adj_free [b] = True"
| "no_adj_free [] = True"

text \<open>
  The loop of \<open>coalesce\<close> stands at the block after \<open>pre\<close>, with \<open>post\<close> still to
  visit: no two neighbours in \<open>pre\<close> are free, and when \<open>pre\<close> ends in a free block
  and \<open>post\<close> starts with one, the footer before the current block holds the size of
  the last block of \<open>pre\<close>, because a merge has just written it.
\<close>

definition coalescing :: "(int \<Rightarrow> int) \<Rightarrow> int \<Rightarrow> blocks \<Rightarrow> blocks \<Rightarrow> bool" where
  "coalescing m a pre post \<longleftrightarrow>
     sizes_ok pre \<and> sizes_ok post \<and> chain m a True (pre @ post)
     \<and> m (a + span pre + span post) = 1 \<and> no_adj_free pre
     \<and> (\<not> lastp True pre \<and> post \<noteq> [] \<and> \<not> snd (hd post)
           \<longrightarrow> m (a + span pre - 4) = fst (last pre))"

text \<open>The same, between the two merges at a free block of size \<open>szc\<close>.\<close>

definition at_free :: "(int \<Rightarrow> int) \<Rightarrow> int \<Rightarrow> blocks \<Rightarrow> int \<Rightarrow> blocks \<Rightarrow> bool" where
  "at_free m a pre szc restc \<longleftrightarrow>
     sizes_ok pre \<and> 8 \<le> szc \<and> 8 dvd szc \<and> sizes_ok restc
     \<and> chain m a True pre \<and> m (a + span pre) = hdr szc False (lastp True pre)
     \<and> chain m (a + span pre + szc) False restc
     \<and> m (a + span pre + szc + span restc) = 1
     \<and> no_adj_free pre
     \<and> (\<not> lastp True pre \<longrightarrow> m (a + span pre - 4) = fst (last pre))
     \<and> (restc \<noteq> [] \<and> \<not> snd (hd restc) \<longrightarrow> m (a + span pre + szc - 4) = szc)"

subsection \<open>The heaps a program can reach\<close>

text \<open>
  What the operating system answers to a successful \<open>myInit\<close>: pages of at least 16
  bytes, a multiple of 8, a page-aligned mapping, and that only when the length it is
  asked for, \<open>sizeOfRegion\<close> rounded up to whole pages, is in the range of \<open>int\<close>
  (as a \<open>size_t\<close> a negative \<open>allocsize\<close> is more than \<open>mmap\<close> gives).
\<close>

definition os_answer :: "int \<Rightarrow> int \<Rightarrow> int \<Rightarrow> bool" where
  "os_answer pagesize mmap_ptr sizeOfRegion \<longleftrightarrow>
     16 \<le> pagesize \<and> 8 dvd pagesize \<and> 0 \<le> mmap_ptr \<and> pagesize dvd mmap_ptr
     \<and> sizeOfRegion + (pagesize - sizeOfRegion smod pagesize) smod pagesize \<le> 2147483647"

text \<open>
  \<open>held s a\<close>: the address \<open>a\<close> is a word of the payload of an allocated block of
  the list that \<open>dispMem\<close> shows, a block the program holds.
  \<open>frees_block s ptr\<close>: \<open>ptr\<close> is the payload address of such a block.
\<close>

definition held :: "heap \<Rightarrow> int \<Rightarrow> bool" where
  "held s a \<longleftrightarrow>
     (\<exists>rows b p z. dispMem s = Some rows \<and> (b, True, p, z) \<in> set rows
        \<and> b + 4 \<le> a \<and> a < b + z \<and> a mod 4 = 0)"

definition frees_block :: "heap \<Rightarrow> int \<Rightarrow> bool" where
  "frees_block s ptr \<longleftrightarrow>
     (\<exists>rows p z. dispMem s = Some rows \<and> (ptr - 4, True, p, z) \<in> set rows)"

text \<open>
  A heap is reachable when it results from a successful \<open>myInit\<close> followed by calls
  of \<open>myAlloc\<close>, \<open>myFree\<close> and \<open>coalesce\<close> that return, with any argument, and by
  stores of the program into the blocks it holds. The memory of the model is total,
  so a call whose loads and stores leave the mapping is a call like any other here;
  the heaps that are shown reachable below are reached inside the mapping.
\<close>

inductive reachable :: "heap \<Rightarrow> bool" where
  r_init: "os_answer pagesize mmap_ptr sizeOfRegion
             \<Longrightarrow> myInit s pagesize fd mmap_ptr sizeOfRegion = (0, s') \<Longrightarrow> reachable s'"
| r_alloc: "reachable s \<Longrightarrow> myAlloc s size0 = Some (ptr, s') \<Longrightarrow> reachable s'"
| r_free: "reachable s \<Longrightarrow> myFree s ptr = (r, s') \<Longrightarrow> reachable s'"
| r_coalesce: "reachable s \<Longrightarrow> coalesce s = Some (r, s') \<Longrightarrow> reachable s'"
| r_store: "reachable s \<Longrightarrow> held s a \<Longrightarrow> reachable (store s a v)"

text \<open>
  The same, with one restriction: a call of \<open>myFree\<close> that succeeds is a call with
  the payload address of an allocated block of the list. \<open>myFree\<close> knows a block by
  the word before the pointer alone, so it also succeeds at a pointer into a block
  whose word before the pointer is odd, and at the pointer after the end mark.
\<close>

inductive proper :: "heap \<Rightarrow> bool" where
  p_init: "os_answer pagesize mmap_ptr sizeOfRegion
             \<Longrightarrow> myInit s pagesize fd mmap_ptr sizeOfRegion = (0, s') \<Longrightarrow> proper s'"
| p_alloc: "proper s \<Longrightarrow> myAlloc s size0 = Some (ptr, s') \<Longrightarrow> size0 \<le> 2147483647 \<Longrightarrow> proper s'"
| p_free: "proper s \<Longrightarrow> myFree s ptr = (r, s') \<Longrightarrow> r = 0 \<longrightarrow> frees_block s ptr \<Longrightarrow> proper s'"
| p_coalesce: "proper s \<Longrightarrow> coalesce s = Some (r, s') \<Longrightarrow> proper s'"
| p_store: "proper s \<Longrightarrow> held s a \<Longrightarrow> proper (store s a v)"

subsection \<open>What dispMem shows of a block list\<close>

text \<open>
  Properties of the block list are stated on the rows of \<open>dispMem\<close>,
  \<open>(t_begin, is_used, previous used, t_size)\<close>, in address order.
\<close>

fun no_adjacent_free :: "(int \<times> bool \<times> bool \<times> int) list \<Rightarrow> bool" where
  "no_adjacent_free ((a1, u1, p1, z1) # (a2, u2, p2, z2) # rs) =
     ((u1 \<or> u2) \<and> no_adjacent_free ((a2, u2, p2, z2) # rs))"
| "no_adjacent_free [r] = True"
| "no_adjacent_free [] = True"

fun pbits_ok :: "(int \<times> bool \<times> bool \<times> int) list \<Rightarrow> bool" where
  "pbits_ok ((a1, u1, p1, z1) # (a2, u2, p2, z2) # rs) =
     (p2 = u1 \<and> pbits_ok ((a2, u2, p2, z2) # rs))"
| "pbits_ok [r] = True"
| "pbits_ok [] = True"

fun prev_used :: "(int \<times> bool \<times> bool \<times> int) list \<Rightarrow> (int \<times> bool \<times> bool \<times> int) list" where
  "prev_used [] = []"
| "prev_used ((a, u, p, z) # rs) = (a, u, True, z) # rs"

fun prev_free :: "(int \<times> bool \<times> bool \<times> int) list \<Rightarrow> (int \<times> bool \<times> bool \<times> int) list" where
  "prev_free [] = []"
| "prev_free ((a, u, p, z) # rs) = (a, u, False, z) # rs"

subsection \<open>Best fit, on any heap\<close>

text \<open>
  The search of \<open>myAlloc\<close> visits the blocks that \<open>dispMem\<close> lists, in the same
  order. \<open>fits\<close>: a row the search can choose for a block of \<open>size1\<close> bytes.
\<close>

definition fits :: "int \<Rightarrow> int \<times> bool \<times> bool \<times> int \<Rightarrow> bool" where
  "fits size1 r = (case r of (a, used, prev, z) \<Rightarrow> \<not> used \<and> size1 \<le> z)"

definition t_size :: "int \<times> bool \<times> bool \<times> int \<Rightarrow> int" where
  "t_size r = snd (snd (snd r))"

definition t_begin :: "int \<times> bool \<times> bool \<times> int \<Rightarrow> int" where
  "t_begin r = fst r"

definition best_row ::
    "int \<Rightarrow> (int \<times> bool \<times> bool \<times> int) list \<Rightarrow> int \<Rightarrow> (int \<times> bool \<times> bool \<times> int) list \<Rightarrow> bool" where
  "best_row size1 R1 z R2 \<longleftrightarrow>
     size1 \<le> z \<and> (\<forall>r \<in> set R1. fits size1 r \<longrightarrow> z < t_size r)
     \<and> (\<forall>r \<in> set R2. fits size1 r \<longrightarrow> z \<le> t_size r)"

definition scanned ::
    "int \<Rightarrow> (int \<times> bool \<times> bool \<times> int) list \<Rightarrow> int \<times> int \<times> int \<Rightarrow> bool" where
  "scanned size1 seen st \<longleftrightarrow>
     (case st of (memoryAvailable, block, previousBlock) \<Rightarrow>
        (memoryAvailable = -1 \<and> (\<forall>r \<in> set seen. \<not> fits size1 r))
        \<or> (\<exists>R1 p R2. seen = R1 @ (block, False, p, memoryAvailable) # R2
               \<and> previousBlock = (if p then 2 else 0)
               \<and> best_row size1 R1 memoryAvailable R2))"

text \<open>Each row begins where the row before it ends.\<close>

fun linked :: "int \<Rightarrow> (int \<times> bool \<times> bool \<times> int) list \<Rightarrow> bool" where
  "linked a [] = True"
| "linked a (r # rs) = (t_begin r = a \<and> linked (a + t_size r) rs)"

section \<open>Arithmetic of the C operators and of headers\<close>

lemma smod2_eq_1: "(x::int) smod 2 = 1 \<longleftrightarrow> 0 < x \<and> odd x"
  by (auto simp: smod_int_alt_def sgn_if abs_if split: if_splits) presburger+

lemma smod2_eq_0: "(x::int) smod 2 = 0 \<longleftrightarrow> even x"
  by (auto simp: smod_int_alt_def sgn_if abs_if split: if_splits)

lemma sdiv8_nonneg: "0 \<le> (x::int) \<Longrightarrow> (x sdiv 8) * 8 = x - x mod 8"
  by (simp add: signed_divide_int_def sgn_if minus_mod_eq_div_mult)

lemma and2_iff: "(a::int) AND 2 \<noteq> 0 \<longleftrightarrow> odd (a div 2)"
  using and_exp_eq_0_iff_not_bit [of a 1] by (simp add: bit_Suc bit_0)

lemma and1_iff: "(a::int) AND 1 \<noteq> 0 \<longleftrightarrow> odd a"
  by (simp add: and_one_eq mod_2_eq_odd)

lemma hdr_cases:
  "hdr sz False False = sz" "hdr sz True False = sz + 1"
  "hdr sz False True = sz + 2" "hdr sz True True = sz + 3"
  by (simp_all add: hdr_def)

lemma dvd8_even: "(8::int) dvd sz \<Longrightarrow> even sz"
  by presburger

lemma hdr_odd: "8 dvd sz \<Longrightarrow> odd (hdr sz al p) \<longleftrightarrow> al"
  by (cases al; cases p) (simp_all add: hdr_cases dvd8_even)

lemma hdr_odd2: "8 dvd sz \<Longrightarrow> odd (hdr sz al p div 2) \<longleftrightarrow> p"
  by (cases al; cases p; simp add: hdr_cases; presburger)

lemma trueSize_hdr: "8 dvd sz \<Longrightarrow> trueSize_of (hdr sz al p) = sz"
  unfolding trueSize_of_def Let_def and1_iff and2_iff
  by (cases al; cases p; simp add: hdr_odd hdr_odd2; simp add: hdr_cases)

lemma hdr_ne_1: "8 \<le> sz \<Longrightarrow> hdr sz al p \<noteq> 1"
  by (simp add: hdr_def)

lemma hdr_nonneg: "0 \<le> sz \<Longrightarrow> 0 \<le> hdr sz al p"
  by (simp add: hdr_def)

lemma hdr_mod8: "8 dvd sz \<Longrightarrow> hdr sz al p mod 8 = (if al then 1 else 0) + (if p then 2 else 0)"
  by (cases al; cases p; simp add: hdr_cases; presburger)

lemma hdr_sdiv8: "8 dvd sz \<Longrightarrow> 0 \<le> sz \<Longrightarrow> (hdr sz al p sdiv 8) * 8 = sz"
  by (simp add: sdiv8_nonneg hdr_nonneg hdr_mod8) (simp add: hdr_def)

lemma hdr_smod2: "8 dvd sz \<Longrightarrow> 0 \<le> sz \<Longrightarrow> hdr sz al p smod 2 = (if al then 1 else 0)"
  using hdr_odd [of sz al p] hdr_nonneg [of sz al p]
  by (cases al) (simp_all add: smod2_eq_1 smod2_eq_0 hdr_def)

lemma hdr_smod8: "8 dvd sz \<Longrightarrow> 0 \<le> sz \<Longrightarrow> hdr sz al p smod 8 = 0 \<longleftrightarrow> \<not> al \<and> \<not> p"
proof -
  assume a: "8 dvd sz" "0 \<le> sz"
  have "hdr sz al p smod 8 = hdr sz al p mod 8"
    using hdr_nonneg [OF a(2), of al p] by (simp add: smod_int_alt_def sgn_if)
  then show ?thesis
    by (simp add: hdr_mod8 [OF a(1)])
qed

lemma disp_row_hdr: "8 dvd sz \<Longrightarrow> disp_row a (hdr sz al p) = (a, al, p, sz)"
  unfolding disp_row_def Let_def and1_iff and2_iff
  by (cases al; cases p; simp add: hdr_cases; presburger)

lemma int_of_id: "- 2147483648 \<le> x \<Longrightarrow> x < 2147483648 \<Longrightarrow> int_of x = x"
  by (simp add: int_of_def)

lemma smod_pos: "0 \<le> (x::int) \<Longrightarrow> 0 < n \<Longrightarrow> x smod n = x mod n"
  by (simp add: smod_int_alt_def sgn_if)

lemma heap1_eq:
  "heap1 = \<lparr>heapStart = 65540, allocsize = 4088, allocated_once = 1,
             mem = (\<lambda>a. 0)(65540 := 4090, 69624 := 4088, 69628 := 1)\<rparr>"
  by (simp add: heap1_def heap0_def myInit_def MAP_FAILED_def Let_def int_of_def
      signed_modulo_int_def fun_eq_iff)

section \<open>myFree: failing calls\<close>

lemma myFree_returns_0_iff:
  "fst (myFree s ptr) = 0 \<longleftrightarrow>
     ptr \<noteq> NULL \<and> ptr mod 8 = 0 \<and> \<not> heapStart s > ptr \<and> mem s (ptr - 4) smod 2 = 1"
  by (simp add: myFree_def Let_def)

lemma myFree_twice:
  assumes "myFree s ptr = (0, s1)"
  shows "myFree s1 ptr = (-1, s1)"
proof -
  let ?h = "mem s (ptr - 4)"
  from assms have c: "ptr \<noteq> NULL" "ptr mod 8 = 0" "\<not> heapStart s > ptr" "?h smod 2 = 1"
    by (auto simp: myFree_def split: if_splits)
  then have h: "0 < ?h" "odd ?h"
    by (simp_all add: smod2_eq_1)
  have hs: "heapStart s1 = heapStart s"
    using assms c by (auto simp: myFree_def Let_def split: if_splits)
  have "even (mem s1 (ptr - 4))"
    using assms c h by (auto simp: myFree_def Let_def split: if_splits)
  then have "mem s1 (ptr - 4) smod 2 \<noteq> 1"
    by (simp add: smod2_eq_1)
  then show ?thesis
    using c hs by (simp add: myFree_def)
qed

text \<open>
  C7: a call of \<open>myFree\<close> that does not return 0 returns -1 and leaves the heap as it
  was; the four checks of the code (null pointer, pointer not a multiple of 8, pointer
  below \<open>heapStart\<close>, allocated bit clear) each fail in that way; and after a
  successful \<open>myFree s ptr\<close> a second call at the same pointer fails and changes
  nothing, so the header of the block is the one the first call left.
\<close>

theorem myFree_failure_unchanged:
  "(fst (myFree s ptr) \<noteq> 0 \<longrightarrow> myFree s ptr = (-1, s))
   \<and> (ptr = NULL \<or> ptr mod 8 \<noteq> 0 \<or> ptr < heapStart s \<or> mem s (ptr - 4) smod 2 \<noteq> 1
        \<longrightarrow> myFree s ptr = (-1, s))
   \<and> (fst (myFree s ptr) = 0 \<longrightarrow>
        myFree (snd (myFree s ptr)) ptr = (-1, snd (myFree s ptr))
        \<and> mem (snd (myFree (snd (myFree s ptr)) ptr)) (ptr - 4) = mem (snd (myFree s ptr)) (ptr - 4))"
proof (intro conjI impI)
  show "myFree s ptr = (-1, s)" if "fst (myFree s ptr) \<noteq> 0"
    using that by (auto simp: myFree_def Let_def split: if_splits)
  show "myFree s ptr = (-1, s)"
    if "ptr = NULL \<or> ptr mod 8 \<noteq> 0 \<or> ptr < heapStart s \<or> mem s (ptr - 4) smod 2 \<noteq> 1"
    using that by (auto simp: myFree_def)
  assume ok: "fst (myFree s ptr) = 0"
  then have "myFree s ptr = (0, snd (myFree s ptr))"
    by (metis prod.collapse)
  then show again: "myFree (snd (myFree s ptr)) ptr = (-1, snd (myFree s ptr))"
    by (rule myFree_twice)
  show "mem (snd (myFree (snd (myFree s ptr)) ptr)) (ptr - 4) = mem (snd (myFree s ptr)) (ptr - 4)"
    by (simp add: again)
qed

lemma heap2_eq: "myAlloc heap1 100 = Some (65544, heap2)"
  by (simp add: heap1_eq heap2_def myAlloc_def round_size_def int_of_def Let_def
      signed_modulo_int_def best_fit.simps best_fit_step_def trueSize_of_def NULL_def fun_eq_iff)

theorem myFree_failure_unchanged_witness:
  "fst (myFree heap2 65544) = 0
   \<and> myFree (snd (myFree heap2 65544)) 65544 = (-1, snd (myFree heap2 65544))
   \<and> fst (myFree heap2 65548) \<noteq> 0
   \<and> myFree heap2 65548 = (-1, heap2)"
proof -
  have a: "fst (myFree heap2 65544) = 0"
    by (simp add: myFree_returns_0_iff heap2_def NULL_def signed_modulo_int_def)
  have b: "fst (myFree heap2 65548) \<noteq> 0"
    by (simp add: myFree_returns_0_iff)
  from myFree_failure_unchanged [of heap2 65544] a
  have c: "myFree (snd (myFree heap2 65544)) 65544 = (-1, snd (myFree heap2 65544))"
    by blast
  from myFree_failure_unchanged [of heap2 65548] b
  have d: "myFree heap2 65548 = (-1, heap2)"
    by blast
  show ?thesis
    using a b c d by blast
qed

section \<open>The block list behind a heap\<close>

lemma span_append [simp]: "span (xs @ ys) = span xs + span ys"
  by (induction xs) auto

lemma lastp_append [simp]: "lastp p (xs @ ys) = lastp (lastp p xs) ys"
  by (induction xs arbitrary: p) auto

lemma sizes_ok_append [simp]: "sizes_ok (xs @ ys) \<longleftrightarrow> sizes_ok xs \<and> sizes_ok ys"
  by (induction xs) auto

lemma chain_append [simp]:
  "chain m a p (xs @ ys) \<longleftrightarrow> chain m a p xs \<and> chain m (a + span xs) (lastp p xs) ys"
  by (induction xs arbitrary: a p) (auto simp: add.assoc)

lemma starts_append [simp]: "starts a (xs @ ys) = starts a xs @ starts (a + span xs) ys"
  by (induction xs arbitrary: a) (auto simp: add.assoc)

lemma rows_of_append [simp]:
  "rows_of a p (xs @ ys) = rows_of a p xs @ rows_of (a + span xs) (lastp p xs) ys"
  by (induction xs arbitrary: a p) (auto simp: add.assoc)

lemma span_nonneg: "sizes_ok bs \<Longrightarrow> 0 \<le> span bs"
  by (induction bs) auto

lemma span_ge8: "sizes_ok bs \<Longrightarrow> bs \<noteq> [] \<Longrightarrow> 8 \<le> span bs"
  using span_nonneg by (cases bs) fastforce+

lemma starts_bounds: "sizes_ok bs \<Longrightarrow> x \<in> set (starts a bs) \<Longrightarrow> a \<le> x \<and> x + 8 \<le> a + span bs"
proof (induction bs arbitrary: a)
  case Nil
  then show ?case by simp
next
  case (Cons b bs)
  obtain sz al where b: "b = (sz, al)" by (cases b)
  from Cons.prems b have ok: "8 \<le> sz" "sizes_ok bs" by auto
  show ?case
  proof (cases "x = a")
    case True
    then show ?thesis using ok span_nonneg [OF ok(2)] b by simp
  next
    case False
    with Cons.prems b have "x \<in> set (starts (a + sz) bs)" by simp
    from Cons.IH [OF ok(2) this] ok b show ?thesis by simp
  qed
qed

lemma chain_frame:
  "chain m a p bs \<Longrightarrow> (\<And>x. x \<in> set (starts a bs) \<Longrightarrow> m' x = m x) \<Longrightarrow> chain m' a p bs"
  by (induction bs arbitrary: a p) auto

lemma chain_frame_range:
  assumes "chain m a p bs" "sizes_ok bs" "\<And>x. a \<le> x \<Longrightarrow> x < a + span bs \<Longrightarrow> m' x = m x"
  shows "chain m' a p bs"
proof (rule chain_frame [OF assms(1)])
  fix x assume "x \<in> set (starts a bs)"
  from starts_bounds [OF assms(2) this] show "m' x = m x"
    by (intro assms(3)) auto
qed

lemma starts_distinct: "sizes_ok bs \<Longrightarrow> distinct (starts a bs)"
proof (induction bs arbitrary: a)
  case Nil
  then show ?case by simp
next
  case (Cons b bs)
  obtain sz al where b: "b = (sz, al)" by (cases b)
  from Cons.prems b have ok: "8 \<le> sz" "sizes_ok bs" by auto
  have "a \<notin> set (starts (a + sz) bs)"
    using starts_bounds [OF ok(2), of a "a + sz"] ok(1) by auto
  then show ?case using Cons.IH [OF ok(2)] b by simp
qed

lemma dispMem_loop_chain:
  "chain m a p bs \<Longrightarrow> sizes_ok bs \<Longrightarrow> m (a + span bs) = 1
     \<Longrightarrow> dispMem_loop m a = Some (rows_of a p bs)"
proof (induction bs arbitrary: a p)
  case Nil
  then show ?case by (simp add: dispMem_loop.simps)
next
  case (Cons b bs)
  obtain sz al where b: "b = (sz, al)" by (cases b)
  from Cons.prems b have h: "m a = hdr sz al p" "8 \<le> sz" "8 dvd sz"
    and rest: "chain m (a + sz) al bs" "sizes_ok bs" "m (a + sz + span bs) = 1"
    by (auto simp: add.assoc)
  have "dispMem_loop m (a + sz) = Some (rows_of (a + sz) al bs)"
    by (rule Cons.IH [OF rest])
  then show ?case
    using h b by (subst dispMem_loop.simps) (simp add: hdr_ne_1 disp_row_hdr)
qed

section \<open>The best-fit search on a block list\<close>

lemma best_fit_step_hdr:
  assumes "8 dvd sz" "0 \<le> sz"
  shows "best_fit_step size1 a (hdr sz al p) (mA, blk, pv) =
           (if \<not> al \<and> size1 \<le> sz \<and> (mA = -1 \<or> sz < mA) then (sz, a, if p then 2 else 0)
            else (mA, blk, pv))"
  using assms
  by (auto simp: best_fit_step_def trueSize_hdr hdr_smod2 and2_iff hdr_odd2)

lemma best_fit_chain:
  "chain m a p bs \<Longrightarrow> sizes_ok bs \<Longrightarrow> m (a + span bs) = 1
     \<Longrightarrow> best_fit m size1 a st = Some (pick size1 a p bs st)"
proof (induction bs arbitrary: a p st)
  case Nil
  then show ?case by (simp add: best_fit.simps)
next
  case (Cons b bs)
  obtain sz al where b: "b = (sz, al)" by (cases b)
  from Cons.prems b have h: "m a = hdr sz al p" "8 \<le> sz" "8 dvd sz"
    and rest: "chain m (a + sz) al bs" "sizes_ok bs" "m (a + sz + span bs) = 1"
    by (auto simp: add.assoc)
  show ?case
    using h b Cons.IH [OF rest]
    by (subst best_fit.simps) (simp add: hdr_ne_1 trueSize_hdr)
qed

lemma found_step:
  assumes f: "found size1 a0 seen st" and ok: "sizes_ok seen" "8 \<le> sz" "8 dvd sz"
  shows "found size1 a0 (seen @ [(sz, al)])
           (best_fit_step size1 (a0 + span seen) (hdr sz al (lastp True seen)) st)"
proof -
  obtain mA blk pv where st: "st = (mA, blk, pv)" by (cases st)
  have step: "best_fit_step size1 (a0 + span seen) (hdr sz al (lastp True seen)) st =
           (if \<not> al \<and> size1 \<le> sz \<and> (mA = -1 \<or> sz < mA)
            then (sz, a0 + span seen, if lastp True seen then 2 else 0)
            else (mA, blk, pv))"
    unfolding st using ok by (intro best_fit_step_hdr) auto
  from f st consider
      (none) "mA = -1" "\<forall>b \<in> set seen. \<not> candidate size1 b"
    | (some) pre mid where "seen = pre @ (mA, False) # mid" "blk = a0 + span pre"
        "pv = (if lastp True pre then 2 else 0)" "is_best size1 pre mA mid"
    by (auto simp: found_def)
  then show ?thesis
  proof cases
    case none
    show ?thesis
    proof (cases "\<not> al \<and> size1 \<le> sz")
      case True
      have "is_best size1 seen sz []"
        using none True by (simp add: is_best_def)
      then show ?thesis
        unfolding step found_def using True none by auto
    next
      case False
      then have "\<not> candidate size1 (sz, al)"
        by (auto simp: candidate_def)
      then show ?thesis
        unfolding step found_def using False none by auto
    qed
  next
    case some
    from ok(1) some(1) have mA8: "8 \<le> mA" by simp
    show ?thesis
    proof (cases "\<not> al \<and> size1 \<le> sz \<and> sz < mA")
      case True
      have "is_best size1 seen sz []"
        using some True unfolding is_best_def by (auto simp: candidate_def)
      then show ?thesis
        unfolding step found_def using True by auto
    next
      case False
      have "is_best size1 pre mA (mid @ [(sz, al)])"
        using some(4) False unfolding is_best_def by (auto simp: candidate_def)
      moreover have "seen @ [(sz, al)] = pre @ (mA, False) # (mid @ [(sz, al)])"
        using some(1) by simp
      ultimately show ?thesis
        unfolding step found_def using False mA8 some(2,3) by auto
    qed
  qed
qed

lemma found_pick:
  "found size1 a0 seen st \<Longrightarrow> sizes_ok seen \<Longrightarrow> sizes_ok bs
     \<Longrightarrow> found size1 a0 (seen @ bs) (pick size1 (a0 + span seen) (lastp True seen) bs st)"
proof (induction bs arbitrary: seen st)
  case Nil
  then show ?case by simp
next
  case (Cons b bs)
  obtain sz al where b: "b = (sz, al)" by (cases b)
  from Cons.prems b have ok: "8 \<le> sz" "8 dvd sz" "sizes_ok bs" by auto
  let ?st = "best_fit_step size1 (a0 + span seen) (hdr sz al (lastp True seen)) st"
  have "found size1 a0 (seen @ [(sz, al)]) ?st"
    by (rule found_step [OF Cons.prems(1,2) ok(1,2)])
  moreover have "sizes_ok (seen @ [(sz, al)])"
    using Cons.prems(2) ok by simp
  ultimately have "found size1 a0 ((seen @ [(sz, al)]) @ bs)
      (pick size1 (a0 + span (seen @ [(sz, al)])) (lastp True (seen @ [(sz, al)])) bs ?st)"
    using ok(3) by (rule Cons.IH)
  then show ?case
    using b by (simp add: add.assoc)
qed

lemma found_pick_all:
  "sizes_ok bs \<Longrightarrow> found size1 a bs (pick size1 a True bs (-1, NULL, 0))"
  using found_pick [of size1 a "[]" "(-1, NULL, 0)" bs] by (simp add: found_def)

section \<open>What dispMem shows of a block list\<close>

lemma dispMem_blocks: "heap_blocks s bs \<Longrightarrow> dispMem s = Some (rows_of (heapStart s) True bs)"
  unfolding heap_blocks_def dispMem_def by (intro dispMem_loop_chain) blast+

lemma no_adjacent_free_rows: "no_adj_free bs \<Longrightarrow> no_adjacent_free (rows_of a p bs)"
  by (induction bs arbitrary: a p rule: no_adj_free.induct) auto

lemma pbits_ok_rows: "pbits_ok (rows_of a p bs)"
proof (induction bs arbitrary: a p)
  case Nil
  then show ?case by simp
next
  case (Cons b bs)
  obtain sz al where b: "b = (sz, al)" by (cases b)
  show ?case
  proof (cases bs)
    case Nil
    then show ?thesis using b by simp
  next
    case (Cons c cs)
    obtain sz2 al2 where c: "c = (sz2, al2)" by (cases c)
    from Cons.IH [of "a + sz" al] show ?thesis
      using b Cons c by simp
  qed
qed

lemma prev_used_rows: "rows_of a True bs = prev_used (rows_of a False bs)"
  by (cases bs) auto

lemma rows_of_blocks:
  "(x, u, q, z) \<in> set (rows_of a p bs) \<Longrightarrow> (z, u) \<in> set bs"
  by (induction bs arbitrary: a p) fastforce+

lemma sizes_dvd_span: "sizes_ok bs \<Longrightarrow> 8 dvd span bs"
  by (induction bs) auto

section \<open>Heaps that are block lists\<close>

lemma round_size_small:
  assumes "0 < size0" "size0 \<le> 2147483636"
  shows "round_size size0 =
      (if (4 + size0) mod 8 \<noteq> 0 then 4 + size0 + 8 - (4 + size0) mod 8 else 4 + size0)"
proof -
  have a: "int_of (4 + size0) = 4 + size0"
    using assms by (intro int_of_id) simp_all
  have sm: "(4 + size0) smod 8 = (4 + size0) mod 8"
    using assms by (intro smod_pos) simp_all
  show ?thesis
  proof (cases "(4 + size0) mod 8 = 0")
    case True
    then show ?thesis
      by (simp add: round_size_def Let_def a sm)
  next
    case False
    have "4 + size0 + 8 - (4 + size0) mod 8 < 2147483648"
      using assms False by presburger
    moreover have "- 2147483648 \<le> 4 + size0 + 8 - (4 + size0) mod 8"
      using assms by presburger
    ultimately have "int_of (4 + size0 + 8 - (4 + size0) mod 8) = 4 + size0 + 8 - (4 + size0) mod 8"
      by (intro int_of_id)
    then show ?thesis
      using False by (simp add: round_size_def Let_def a sm)
  qed
qed

lemma round_size_big:
  assumes "2147483636 < size0" "size0 \<le> 2147483647"
  shows "round_size size0 < 0"
proof -
  define k where "k = size0 - 2147483637"
  have s: "size0 = 2147483637 + k"
    by (simp add: k_def)
  from assms have "0 \<le> k" "k \<le> 10"
    by (simp_all add: k_def)
  then have "k = 0 \<or> k = 1 \<or> k = 2 \<or> k = 3 \<or> k = 4 \<or> k = 5 \<or> k = 6
    \<or> k = 7 \<or> k = 8 \<or> k = 9 \<or> k = 10"
    by arith
  then show ?thesis
    unfolding s
    by (elim disjE) (simp_all add: round_size_def int_of_def Let_def signed_modulo_int_def)
qed

lemma round_size_pos:
  assumes "0 < size0" "size0 \<le> 2147483636"
  shows "8 \<le> round_size size0" "8 dvd round_size size0" "size0 + 4 \<le> round_size size0"
    "round_size size0 \<le> 2147483640"
proof -
  note r = round_size_small [OF assms]
  show "8 dvd round_size size0" unfolding r by presburger
  show "size0 + 4 \<le> round_size size0" unfolding r by presburger
  show "8 \<le> round_size size0" unfolding r using assms(1) by presburger
  show "round_size size0 \<le> 2147483640" unfolding r using assms(2) by presburger
qed

lemma starts_interior:
  assumes "sizes_ok (pre @ b # post)" "a + span pre < x" "x < a + span pre + fst b"
  shows "x \<notin> set (starts a (pre @ b # post))"
proof
  assume "x \<in> set (starts a (pre @ b # post))"
  then consider "x \<in> set (starts a pre)" | "x = a + span pre"
    | "x \<in> set (starts (a + span pre + fst b) post)"
    by (cases b) auto
  then show False
  proof cases
    case 1
    then show ?thesis using starts_bounds [of pre x a] assms by simp
  next
    case 2
    then show ?thesis using assms by simp
  next
    case 3
    have "sizes_ok post" using assms(1) by (cases b) simp
    from starts_bounds [OF this 3] show ?thesis using assms by simp
  qed
qed

lemma chain_upd_above:
  "sizes_ok bs \<Longrightarrow> x < a \<Longrightarrow> chain (m(x := v)) a p bs \<longleftrightarrow> chain m a p bs"
  by (induction bs arbitrary: a p) auto

lemma chain_upd_below:
  assumes "sizes_ok bs" "a + span bs \<le> x"
  shows "chain (m(x := v)) a p bs \<longleftrightarrow> chain m a p bs"
  using assms
proof (induction bs arbitrary: a p)
  case Nil
  then show ?case by simp
next
  case (Cons b bs)
  obtain sz al where b: "b = (sz, al)" by (cases b)
  from Cons.prems b have ok: "8 \<le> sz" "sizes_ok bs" "a + sz + span bs \<le> x" by auto
  have "x \<noteq> a" using ok span_nonneg [OF ok(2)] by simp
  then show ?case using Cons.IH [OF ok(2,3)] b by simp
qed

lemma heap_blocksD:
  assumes "heap_blocks s (pre @ (sz, al) # post)"
  shows "sizes_ok pre" "8 \<le> sz" "8 dvd sz" "sizes_ok post"
    "chain (mem s) (heapStart s) True pre"
    "mem s (heapStart s + span pre) = hdr sz al (lastp True pre)"
    "chain (mem s) (heapStart s + span pre + sz) al post"
    "span pre + sz + span post \<le> allocsize s"
    "mem s (heapStart s + span pre + sz + span post) = 1"
    "0 < heapStart s" "heapStart s mod 8 = 4"
    "0 \<le> span pre" "0 \<le> span post"
  using assms by (auto simp: heap_blocks_def add.assoc span_nonneg)

lemma alloc_split_blocks:
  assumes hb: "heap_blocks s (pre @ (sz, False) # post)"
    and sz: "size1 < sz" "8 \<le> size1" "8 dvd size1"
    and blk: "blk = heapStart s + span pre"
    and m': "m' = (mem s)(blk := hdr size1 True (lastp True pre),
                         blk + size1 := hdr (sz - size1) False True)"
  shows "heap_blocks (s\<lparr>mem := m'\<rparr>) (pre @ (size1, True) # (sz - size1, False) # post)"
proof -
  note d = heap_blocksD [OF hb]
  have rem: "8 \<le> sz - size1" "8 dvd sz - size1"
    using sz d(3) by presburger+
  have c1: "chain m' (heapStart s) True pre"
    unfolding m' using d(1,5) sz(2) blk by (simp add: chain_upd_below)
  have c2: "chain m' (blk + sz) False post"
    unfolding m' using d(4,7) sz blk by (simp add: chain_upd_above)
  have h1: "m' blk = hdr size1 True (lastp True pre)"
    unfolding m' using sz by simp
  have h2: "m' (blk + size1) = hdr (sz - size1) False True"
    unfolding m' by simp
  have e: "m' (heapStart s + span pre + sz + span post) = 1"
    unfolding m' using d(9,13) sz blk by simp
  show ?thesis
    unfolding heap_blocks_def
    using d(1,4,8,10,11) sz rem c1 c2 h1 h2 e blk
    by (simp add: add.assoc)
qed

lemma alloc_cut_blocks:
  assumes hb: "heap_blocks s (pre @ (sz, False) # post)"
    and sz: "size1 < sz" "8 \<le> size1" "8 dvd size1"
    and blk: "blk = heapStart s + span pre"
    and st: "mem s (blk + size1) = 1"
    and m': "m' = (mem s)(blk := hdr size1 True (lastp True pre))"
  shows "heap_blocks (s\<lparr>mem := m'\<rparr>) (pre @ [(size1, True)])"
proof -
  note d = heap_blocksD [OF hb]
  have c1: "chain m' (heapStart s) True pre"
    unfolding m' using d(1,5) blk by (simp add: chain_upd_below)
  have h1: "m' blk = hdr size1 True (lastp True pre)"
    unfolding m' by simp
  have e: "m' (blk + size1) = 1"
    unfolding m' using st sz(2) by simp
  have le: "span pre + size1 \<le> allocsize s"
    using d(8,13) sz(1) by simp
  show ?thesis
    unfolding heap_blocks_def
    using d(1,10,11) sz c1 h1 e le blk
    by (simp add: add.assoc)
qed

lemma alloc_exact_blocks:
  assumes hb: "heap_blocks s (pre @ (sz, False) # post)"
    and blk: "blk = heapStart s + span pre"
    and m1: "m1 = (mem s)(blk := mem s blk + 1)"
    and m': "m' = (if m1 (blk + sz) = 1 then m1 else m1(blk + sz := m1 (blk + sz) + 2))"
  shows "heap_blocks (s\<lparr>mem := m'\<rparr>) (pre @ (sz, True) # post)"
proof -
  note d = heap_blocksD [OF hb]
  have h1: "m1 blk = hdr sz True (lastp True pre)"
    unfolding m1 using d(6) blk by (simp add: hdr_def)
  have c1: "chain m1 (heapStart s) True pre"
    unfolding m1 using d(1,5) blk by (simp add: chain_upd_below)
  have c2: "chain m1 (blk + sz) False post"
    unfolding m1 using d(2,4,7) blk by (simp add: chain_upd_above)
  have e1: "m1 (heapStart s + span pre + sz + span post) = 1"
    unfolding m1 using d(2,9,13) blk by simp
  show ?thesis
  proof (cases post)
    case Nil
    then have "m' = m1"
      unfolding m' using e1 blk by simp
    then show ?thesis
      unfolding heap_blocks_def
      using d(1,2,3,8,10,11) c1 h1 e1 blk Nil by (simp add: add.assoc)
  next
    case (Cons b post')
    obtain sz2 al2 where b: "b = (sz2, al2)" by (cases b)
    from d(4) Cons b have ok2: "8 \<le> sz2" "8 dvd sz2" "sizes_ok post'" by auto
    from c2 Cons b have n: "m1 (blk + sz) = hdr sz2 al2 False"
      and c3: "chain m1 (blk + sz + sz2) al2 post'" by auto
    have m'': "m' = m1(blk + sz := hdr sz2 al2 True)"
      unfolding m' using n ok2 by (simp add: hdr_ne_1) (simp add: hdr_def)
    have c1': "chain m' (heapStart s) True pre"
      unfolding m'' using d(1,2) c1 blk by (simp add: chain_upd_below)
    have h1': "m' blk = hdr sz True (lastp True pre)"
      unfolding m'' using h1 d(2) by simp
    have h2': "m' (blk + sz) = hdr sz2 al2 True"
      unfolding m'' by simp
    have c3': "chain m' (blk + sz + sz2) al2 post'"
      unfolding m'' using c3 ok2 by (simp add: chain_upd_above)
    have e': "m' (heapStart s + span pre + sz + span post) = 1"
      unfolding m'' using e1 blk Cons b ok2 span_nonneg [OF ok2(3)] by simp
    show ?thesis
      unfolding heap_blocks_def
      using d(1,2,3,4,8,10,11) c1' h1' h2' c3' e' blk Cons b
      by (simp add: add.assoc)
  qed
qed

lemma block_le_span: "sizes_ok bs \<Longrightarrow> b \<in> set bs \<Longrightarrow> fst b \<le> span bs"
proof (induction bs)
  case Nil
  then show ?case by simp
next
  case (Cons c bs)
  obtain sz al where c: "c = (sz, al)" by (cases c)
  from Cons.prems c have ok: "8 \<le> sz" "sizes_ok bs" by auto
  show ?case
  proof (cases "b = c")
    case True
    then show ?thesis using span_nonneg [OF ok(2)] c by simp
  next
    case False
    with Cons.prems have "b \<in> set bs" by simp
    from Cons.IH [OF ok(2) this] ok c show ?thesis by simp
  qed
qed

lemma myAlloc_blocks:
  assumes hb: "heap_blocks s bs" and int: "size0 \<le> 2147483647"
  shows "(myAlloc s size0 = Some (NULL, s)
            \<and> (size0 \<le> 0 \<or> (\<forall>b \<in> set bs. \<not> candidate (round_size size0) b)))
         \<or> (myAlloc s size0 = None \<and> 2147483636 < size0)
         \<or> (\<exists>pre sz post s'.
               bs = pre @ (sz, False) # post \<and> 0 < size0 \<and> size0 \<le> 2147483636
               \<and> is_best (round_size size0) pre sz post
               \<and> myAlloc s size0 = Some (heapStart s + span pre + 4, s')
               \<and> heap_blocks s' (pre @ alloc_part (round_size size0) sz
                     (mem s (heapStart s + span pre + round_size size0)) post)
               \<and> heapStart s' = heapStart s \<and> allocsize s' = allocsize s
               \<and> (\<forall>x. x \<noteq> heapStart s + span pre
                      \<and> x \<noteq> heapStart s + span pre + round_size size0
                      \<longrightarrow> mem s' x = mem s x))"
proof (cases "size0 \<le> 0")
  case True
  then show ?thesis by (simp add: myAlloc_def)
next
  case pos: False
  define size1 where "size1 = round_size size0"
  from hb have ok: "sizes_ok bs" and ne: "bs \<noteq> []"
    and ch: "chain (mem s) (heapStart s) True bs"
    and e: "mem s (heapStart s + span bs) = 1" and sp: "span bs \<le> allocsize s"
    unfolding heap_blocks_def by blast+
  show ?thesis
  proof (cases "size0 \<le> 2147483636")
    case False
    with int have "size1 < 0"
      unfolding size1_def by (intro round_size_big) simp_all
    moreover have "8 \<le> allocsize s"
      using span_ge8 [OF ok ne] sp by simp
    ultimately have "myAlloc s size0 = None"
      using pos by (simp add: myAlloc_def size1_def [symmetric] Let_def)
    with False show ?thesis by simp
  next
    case small: True
    have r: "8 \<le> size1" "8 dvd size1"
      using round_size_pos [of size0] pos small by (simp_all add: size1_def)
    show ?thesis
    proof (cases "allocsize s < size1")
      case True
      have "\<forall>b \<in> set bs. \<not> candidate size1 b"
        using block_le_span [OF ok] sp True by (fastforce simp: candidate_def)
      then show ?thesis
        using pos True by (simp add: myAlloc_def size1_def Let_def)
    next
      case fits: False
      obtain mA blk pv where pk: "pick size1 (heapStart s) True bs (-1, NULL, 0) = (mA, blk, pv)"
        by (cases "pick size1 (heapStart s) True bs (-1, NULL, 0)")
      have bf: "best_fit (mem s) size1 (heapStart s) (-1, NULL, 0) = Some (mA, blk, pv)"
        using best_fit_chain [OF ch ok e] pk by simp
      have fd: "found size1 (heapStart s) bs (mA, blk, pv)"
        using found_pick_all [OF ok, of size1 "heapStart s"] pk by simp
      then consider
          (none) "mA = -1" "\<forall>b \<in> set bs. \<not> candidate size1 b"
        | (some) pre post where "bs = pre @ (mA, False) # post" "blk = heapStart s + span pre"
            "pv = (if lastp True pre then 2 else 0)" "is_best size1 pre mA post"
        by (auto simp: found_def)
      then show ?thesis
      proof cases
        case none
        have "myAlloc s size0 = Some (NULL, s)"
          using pos fits bf none(1) r by (simp add: myAlloc_def size1_def [symmetric] Let_def)
        then show ?thesis
          using none(2) by (simp add: size1_def)
      next
        case some
        note hb' = hb [unfolded some(1)]
        note d = heap_blocksD [OF hb']
        have le: "size1 \<le> mA"
          using some(4) by (simp add: is_best_def)
        have fin: ?thesis
          if "myAlloc s size0 = Some (blk + 4, s\<lparr>mem := m'\<rparr>)"
            "heap_blocks (s\<lparr>mem := m'\<rparr>) (pre @ alloc_part size1 mA (mem s (blk + size1)) post)"
            "\<forall>x. x \<noteq> blk \<and> x \<noteq> blk + size1 \<longrightarrow> m' x = mem s x" for m'
        proof -
          have "bs = pre @ (mA, False) # post \<and> 0 < size0 \<and> size0 \<le> 2147483636
               \<and> is_best (round_size size0) pre mA post
               \<and> myAlloc s size0 = Some (heapStart s + span pre + 4, s\<lparr>mem := m'\<rparr>)
               \<and> heap_blocks (s\<lparr>mem := m'\<rparr>) (pre @ alloc_part (round_size size0) mA
                     (mem s (heapStart s + span pre + round_size size0)) post)
               \<and> heapStart (s\<lparr>mem := m'\<rparr>) = heapStart s
               \<and> allocsize (s\<lparr>mem := m'\<rparr>) = allocsize s
               \<and> (\<forall>x. x \<noteq> heapStart s + span pre
                      \<and> x \<noteq> heapStart s + span pre + round_size size0
                      \<longrightarrow> mem (s\<lparr>mem := m'\<rparr>) x = mem s x)"
            using that some pos small by (simp add: size1_def)
          then show ?thesis by blast
        qed
        show ?thesis
        proof (cases "size1 < mA")
          case True
          show ?thesis
          proof (cases "mem s (blk + size1) = 1")
            case stale: True
            define m' where "m' = (mem s)(blk := hdr size1 True (lastp True pre))"
            have "myAlloc s size0 = Some (blk + 4, s\<lparr>mem := m'\<rparr>)"
              using pos fits bf True stale r some(3)
              by (simp add: myAlloc_def size1_def [symmetric] Let_def m'_def hdr_def)
            moreover have "heap_blocks (s\<lparr>mem := m'\<rparr>)
                (pre @ alloc_part size1 mA (mem s (blk + size1)) post)"
              using alloc_cut_blocks [OF hb' True r some(2) stale m'_def] True stale
              by (simp add: alloc_part_def)
            moreover have "\<forall>x. x \<noteq> blk \<and> x \<noteq> blk + size1 \<longrightarrow> m' x = mem s x"
              by (simp add: m'_def)
            ultimately show ?thesis
              by (rule fin)
          next
            case ne1: False
            define m' where "m' = (mem s)(blk := hdr size1 True (lastp True pre),
                             blk + size1 := hdr (mA - size1) False True)"
            have "myAlloc s size0 = Some (blk + 4, s\<lparr>mem := m'\<rparr>)"
              using pos fits bf True ne1 r some(3)
              by (simp add: myAlloc_def size1_def [symmetric] Let_def m'_def hdr_def)
            moreover have "heap_blocks (s\<lparr>mem := m'\<rparr>)
                (pre @ alloc_part size1 mA (mem s (blk + size1)) post)"
              using alloc_split_blocks [OF hb' True r some(2) m'_def] True ne1
              by (simp add: alloc_part_def)
            moreover have "\<forall>x. x \<noteq> blk \<and> x \<noteq> blk + size1 \<longrightarrow> m' x = mem s x"
              by (simp add: m'_def)
            ultimately show ?thesis
              by (rule fin)
          qed
        next
          case False
          with le have eq: "mA = size1" by simp
          define m1 where "m1 = (mem s)(blk := mem s blk + 1)"
          define m' where "m' = (if m1 (blk + mA) = 1 then m1 else m1(blk + mA := m1 (blk + mA) + 2))"
          have "myAlloc s size0 = Some (blk + 4, s\<lparr>mem := m'\<rparr>)"
            using pos fits bf eq r
            by (simp add: myAlloc_def size1_def [symmetric] Let_def m'_def m1_def)
          moreover have "heap_blocks (s\<lparr>mem := m'\<rparr>)
              (pre @ alloc_part size1 mA (mem s (blk + size1)) post)"
            using alloc_exact_blocks [OF hb' some(2) m1_def m'_def] eq
            by (simp add: alloc_part_def)
          moreover have "\<forall>x. x \<noteq> blk \<and> x \<noteq> blk + size1 \<longrightarrow> m' x = mem s x"
            by (simp add: m'_def m1_def eq)
          ultimately show ?thesis
            by (rule fin)
        qed
      qed
    qed
  qed
qed

lemma rows_of_split:
  "(x, u, q, z) \<in> set (rows_of a p bs)
     \<Longrightarrow> \<exists>pre post. bs = pre @ (z, u) # post \<and> x = a + span pre \<and> q = lastp p pre"
proof (induction bs arbitrary: a p)
  case Nil
  then show ?case by simp
next
  case (Cons c bs)
  obtain sz al where c: "c = (sz, al)" by (cases c)
  show ?case
  proof (cases "(x, u, q, z) = (a, al, p, sz)")
    case True
    then have "c # bs = [] @ (z, u) # bs \<and> x = a + span [] \<and> q = lastp p []"
      using c by simp
    then show ?thesis by blast
  next
    case False
    with Cons.prems c have "(x, u, q, z) \<in> set (rows_of (a + sz) al bs)" by auto
    from Cons.IH [OF this] obtain pre post
      where "bs = pre @ (z, u) # post" "x = a + sz + span pre" "q = lastp al pre" by blast
    then have "c # bs = (c # pre) @ (z, u) # post \<and> x = a + span (c # pre)
        \<and> q = lastp p (c # pre)"
      using c by simp
    then show ?thesis by blast
  qed
qed

lemma free_blocks_effect:
  assumes hb: "heap_blocks s (pre @ (sz, True) # post)"
    and blk: "blk = heapStart s + span pre"
    and m1: "m1 = (mem s)(blk := mem s blk - 1)"
    and m2: "m2 = m1(blk + sz - 4 := sz)"
    and m': "m' = (if m2 (blk + sz) \<noteq> 1 then m2(blk + sz := m2 (blk + sz) - 2) else m2)"
  shows "heap_blocks (s\<lparr>mem := m'\<rparr>) (pre @ (sz, False) # post)"
    and "m' (blk + sz - 4) = sz"
proof -
  note d = heap_blocksD [OF hb]
  have h1: "m2 blk = hdr sz False (lastp True pre)"
    unfolding m2 m1 using d(2,6) blk by (simp add: hdr_def)
  have c1: "chain m2 (heapStart s) True pre"
    unfolding m2 m1 using d(1,2,5) blk by (simp add: chain_upd_below)
  have c2: "chain m2 (blk + sz) True post"
    unfolding m2 m1 using d(2,4,7) blk by (simp add: chain_upd_above)
  have e2: "m2 (heapStart s + span pre + sz + span post) = 1"
    unfolding m2 m1 using d(2,9,13) blk by simp
  have f2: "m2 (blk + sz - 4) = sz"
    unfolding m2 by simp
  have both: "heap_blocks (s\<lparr>mem := m'\<rparr>) (pre @ (sz, False) # post) \<and> m' (blk + sz - 4) = sz"
  proof (cases post)
    case Nil
    then have "m' = m2"
      unfolding m' using e2 blk by simp
    then show ?thesis
      unfolding heap_blocks_def
      using d(1,2,3,8,10,11) c1 h1 e2 f2 blk Nil by (simp add: add.assoc)
  next
    case (Cons b post')
    obtain sz2 al2 where b: "b = (sz2, al2)" by (cases b)
    from d(4) Cons b have ok2: "8 \<le> sz2" "8 dvd sz2" "sizes_ok post'" by auto
    from c2 Cons b have n: "m2 (blk + sz) = hdr sz2 al2 True"
      and c3: "chain m2 (blk + sz + sz2) al2 post'" by auto
    have m'': "m' = m2(blk + sz := hdr sz2 al2 False)"
      unfolding m' using n ok2 by (simp add: hdr_ne_1) (simp add: hdr_def)
    have c1': "chain m' (heapStart s) True pre"
      unfolding m'' using d(1,2) c1 blk by (simp add: chain_upd_below)
    have h1': "m' blk = hdr sz False (lastp True pre)"
      unfolding m'' using h1 d(2) by simp
    have h2': "m' (blk + sz) = hdr sz2 al2 False"
      unfolding m'' by simp
    have c3': "chain m' (blk + sz + sz2) al2 post'"
      unfolding m'' using c3 ok2 by (simp add: chain_upd_above)
    have e': "m' (heapStart s + span pre + sz + span post) = 1"
      unfolding m'' using e2 blk Cons b ok2 span_nonneg [OF ok2(3)] by simp
    have f': "m' (blk + sz - 4) = sz"
      unfolding m'' using f2 by simp
    show ?thesis
      unfolding heap_blocks_def
      using d(1,2,3,4,8,10,11) c1' h1' h2' c3' e' f' blk Cons b
      by (simp add: add.assoc)
  qed
  from both show "heap_blocks (s\<lparr>mem := m'\<rparr>) (pre @ (sz, False) # post)" ..
  from both show "m' (blk + sz - 4) = sz" ..
qed

lemma myFree_blocks:
  assumes hb: "heap_blocks s (pre @ (sz, True) # post)"
    and ptr: "ptr = heapStart s + span pre + 4"
  shows "\<exists>s'. myFree s ptr = (0, s')
           \<and> heap_blocks s' (pre @ (sz, False) # post)
           \<and> heapStart s' = heapStart s \<and> allocsize s' = allocsize s
           \<and> mem s' (heapStart s + span pre + sz - 4) = sz"
proof -
  note d = heap_blocksD [OF hb]
  define blk where "blk = heapStart s + span pre"
  define m1 where "m1 = (mem s)(blk := mem s blk - 1)"
  define m2 where "m2 = m1(blk + sz - 4 := sz)"
  define m' where "m' = (if m2 (blk + sz) \<noteq> 1 then m2(blk + sz := m2 (blk + sz) - 2) else m2)"
  have p4: "ptr - 4 = blk"
    using ptr by (simp add: blk_def)
  have "8 dvd span pre"
    using d(1) by (rule sizes_dvd_span)
  then have c: "ptr \<noteq> NULL" "ptr mod 8 = 0" "\<not> heapStart s > ptr"
    using d(10,11,12) ptr by (simp_all add: NULL_def) presburger
  have h: "mem s blk = hdr sz True (lastp True pre)"
    using d(6) by (simp add: blk_def)
  have odd: "mem s blk smod 2 = 1"
    unfolding h using d(2,3) by (simp add: hdr_smod2)
  have "mem s blk - 1 = hdr sz False (lastp True pre)"
    unfolding h by (simp add: hdr_def)
  then have sd: "((mem s blk - 1) sdiv 8) * 8 = sz"
    using d(2,3) by (simp add: hdr_sdiv8)
  have "myFree s ptr = (0, s\<lparr>mem := m'\<rparr>)"
    using c odd sd d(2)
    by (simp add: myFree_def Let_def m'_def m2_def m1_def p4)
  moreover note free_blocks_effect [OF hb blk_def m1_def m2_def m'_def]
  ultimately have "myFree s ptr = (0, s\<lparr>mem := m'\<rparr>)
      \<and> heap_blocks (s\<lparr>mem := m'\<rparr>) (pre @ (sz, False) # post)
      \<and> heapStart (s\<lparr>mem := m'\<rparr>) = heapStart s
      \<and> allocsize (s\<lparr>mem := m'\<rparr>) = allocsize s
      \<and> mem (s\<lparr>mem := m'\<rparr>) (heapStart s + span pre + sz - 4) = sz"
    by (simp add: blk_def)
  then show ?thesis by blast
qed

lemma frees_block_split:
  assumes hb: "heap_blocks s bs" and f: "frees_block s ptr"
  shows "\<exists>pre sz post. bs = pre @ (sz, True) # post \<and> ptr = heapStart s + span pre + 4"
proof -
  from f obtain rows p z where "dispMem s = Some rows" "(ptr - 4, True, p, z) \<in> set rows"
    unfolding frees_block_def by blast
  then have "(ptr - 4, True, p, z) \<in> set (rows_of (heapStart s) True bs)"
    using dispMem_blocks [OF hb] by simp
  from rows_of_split [OF this] obtain pre post
    where "bs = pre @ (z, True) # post" "ptr - 4 = heapStart s + span pre"
    by blast
  then have "bs = pre @ (z, True) # post \<and> ptr = heapStart s + span pre + 4"
    by simp
  then show ?thesis by blast
qed

lemma store_blocks:
  assumes hb: "heap_blocks s bs" and h: "held s a"
  shows "heap_blocks (store s a v) bs"
proof -
  from h obtain rows b p z where "dispMem s = Some rows" "(b, True, p, z) \<in> set rows"
    and rng: "b + 4 \<le> a" "a < b + z"
    unfolding held_def by blast
  then have "(b, True, p, z) \<in> set (rows_of (heapStart s) True bs)"
    using dispMem_blocks [OF hb] by simp
  from rows_of_split [OF this] obtain pre post
    where bs: "bs = pre @ (z, True) # post" and b: "b = heapStart s + span pre"
    by blast
  note d = heap_blocksD [OF hb [unfolded bs]]
  from hb have ok: "sizes_ok bs" and ch: "chain (mem s) (heapStart s) True bs"
    and e: "mem s (heapStart s + span bs) = 1"
    unfolding heap_blocks_def by blast+
  have "a \<notin> set (starts (heapStart s) (pre @ (z, True) # post))"
    using ok rng unfolding bs b by (intro starts_interior) simp_all
  then have "chain ((mem s)(a := v)) (heapStart s) True bs"
    unfolding bs [symmetric] by (intro chain_frame [OF ch]) auto
  moreover have "a \<noteq> heapStart s + span bs"
    using rng(2) d(13) unfolding bs b by simp
  ultimately show ?thesis
    using hb e unfolding heap_blocks_def store_def by simp
qed

lemma page_round:
  assumes "0 < (n::int)" "0 < pg"
  shows "pg dvd n + (pg - n smod pg) smod pg" "pg \<le> n + (pg - n smod pg) smod pg"
proof -
  define q r where "q = n div pg" and "r = n mod pg"
  have 1: "n smod pg = r"
    using assms by (simp add: smod_int_alt_def sgn_if r_def)
  have pos: "0 < pg - r"
    using assms(2) pos_mod_bound [of pg n] by (simp add: r_def)
  have "sgn (pg - r) = 1" "\<bar>pg - r\<bar> = pg - r" "\<bar>pg\<bar> = pg"
    using sgn_pos [OF pos] abs_of_pos [OF pos] abs_of_pos [OF assms(2)] by blast+
  then have 2: "(pg - r) smod pg = (pg - r) mod pg"
    by (simp only: smod_int_alt_def mult_1)
  have n: "n = pg * q + r"
    by (simp add: q_def r_def)
  have "pg * q + r + (pg - r) = pg * (q + 1)"
    by (simp add: distrib_left)
  then have "(n + (pg - r)) mod pg = 0"
    unfolding n [symmetric] by simp
  moreover have "(n + (pg - r) mod pg) mod pg = (n + (pg - r)) mod pg"
    by (rule mod_add_right_eq)
  ultimately have "(n + (pg - r) mod pg) mod pg = 0"
    by simp
  then show d: "pg dvd n + (pg - n smod pg) smod pg"
    unfolding 1 2 by (simp only: dvd_eq_mod_eq_0)
  have "0 \<le> (pg - r) mod pg"
    using assms(2) by simp
  then have "0 < n + (pg - n smod pg) smod pg"
    unfolding 1 2 using assms(1) by simp
  with d show "pg \<le> n + (pg - n smod pg) smod pg"
    by (rule zdvd_imp_le)
qed

lemma myInit_blocks:
  assumes once: "allocated_once s = 0" and n: "0 < sizeOfRegion"
    and os: "os_answer pagesize mmap_ptr sizeOfRegion" and fd: "fd \<noteq> -1"
  shows "\<exists>s'. myInit s pagesize fd mmap_ptr sizeOfRegion = (0, s')
            \<and> heap_blocks s' [(allocsize s', False)] \<and> heapStart s' = mmap_ptr + 4
            \<and> mem s' (heapStart s' + allocsize s' - 4) = allocsize s'"
proof -
  define A where "A = sizeOfRegion + (pagesize - sizeOfRegion smod pagesize) smod pagesize"
  from os have pg: "16 \<le> pagesize" "8 dvd pagesize"
    and mp: "0 \<le> mmap_ptr" "pagesize dvd mmap_ptr" and top: "A \<le> 2147483647"
    by (simp_all add: os_answer_def A_def)
  have "pagesize dvd A" "pagesize \<le> A"
    unfolding A_def using page_round [of sizeOfRegion pagesize] n pg(1) by simp_all
  then have A: "8 dvd A" "16 \<le> A"
    using pg by auto
  have A8: "8 dvd A - 8" "8 \<le> A - 8"
    using A by presburger+
  have iA: "int_of A = A" "int_of (A - 8) = A - 8"
    using A top by (simp_all add: int_of_id)
  have m8: "8 dvd mmap_ptr"
    using pg(2) mp(2) by (rule dvd_trans)
  then have hs: "(mmap_ptr + 4) mod 8 = 4"
    by presburger
  define m0 where "m0 = (\<lambda>a. if mmap_ptr \<le> a \<and> a < mmap_ptr + A then 0 else mem s a)"
  define m4 where "m4 = m0(mmap_ptr + 4 + (A - 8) := 1, mmap_ptr + 4 := hdr (A - 8) False True,
                         mmap_ptr + 4 + (A - 8) - 4 := A - 8)"
  define s' where "s' = snd (myInit s pagesize fd mmap_ptr sizeOfRegion)"
  have r: "fst (myInit s pagesize fd mmap_ptr sizeOfRegion) = 0"
    using once n fd mp(1) by (simp add: myInit_def Let_def MAP_FAILED_def)
  have hs': "heapStart s' = mmap_ptr + 4"
    using once n fd mp(1) by (simp add: s'_def myInit_def Let_def MAP_FAILED_def)
  have al': "allocsize s' = A - 8"
    using once n fd mp(1)
    by (simp add: s'_def myInit_def Let_def MAP_FAILED_def A_def [symmetric] iA)
  have me': "mem s' = m4"
    using once n fd mp(1) A
    by (simp add: s'_def myInit_def Let_def MAP_FAILED_def A_def [symmetric] iA m4_def m0_def
        hdr_def cong: if_cong) (simp add: add_diff_eq)
  have "heap_blocks s' [(allocsize s', False)]"
    unfolding heap_blocks_def hs' al' me'
    using A A8 hs mp(1) by simp (simp add: m4_def)
  moreover have "mem s' (heapStart s' + allocsize s' - 4) = allocsize s'"
    unfolding hs' al' me' by (simp add: m4_def)
  moreover have "myInit s pagesize fd mmap_ptr sizeOfRegion = (0, s')"
    using r by (simp add: s'_def prod_eq_iff)
  ultimately show ?thesis
    using hs' by blast
qed

section \<open>coalesce on a block list\<close>

lemma no_adj_free_snoc:
  "no_adj_free (xs @ [(sz, al)]) \<longleftrightarrow> no_adj_free xs \<and> (lastp True xs \<or> al)"
proof (induction xs rule: no_adj_free.induct)
  case (1 s1 a1 s2 a2 bs)
  then show ?case by auto
next
  case (2 b)
  then show ?case by (cases b) auto
next
  case 3
  then show ?case by simp
qed

lemma lastp_False_snoc:
  assumes "\<not> lastp True pre"
  shows "\<exists>pre0 psz. pre = pre0 @ [(psz, False)]"
proof -
  from assms have "pre \<noteq> []" by auto
  then obtain pre0 b where p: "pre = pre0 @ [b]"
    by (metis append_butlast_last_id)
  obtain psz al where b: "b = (psz, al)" by (cases b)
  from assms p b have "\<not> al" by simp
  with p b show ?thesis by blast
qed

lemma coalescingD:
  assumes "coalescing m a pre ((sz, al) # rest)"
  shows "sizes_ok pre" "8 \<le> sz" "8 dvd sz" "sizes_ok rest"
    "chain m a True pre" "m (a + span pre) = hdr sz al (lastp True pre)"
    "chain m (a + span pre + sz) al rest"
    "m (a + span pre + sz + span rest) = 1"
    "no_adj_free pre"
    "\<not> lastp True pre \<and> \<not> al \<longrightarrow> m (a + span pre - 4) = fst (last pre)"
    "0 \<le> span pre" "0 \<le> span rest"
  using assms by (auto simp: coalescing_def add.assoc span_nonneg)

lemma merge_next_at_free:
  assumes I: "coalescing m a pre ((sz, False) # rest)"
  shows "\<exists>szc restc. at_free (merge_next m (a + span pre)) a pre szc restc
           \<and> szc + span restc = sz + span rest \<and> length restc \<le> length rest"
proof -
  note d = coalescingD [OF I]
  define cur where "cur = a + span pre"
  have hc: "m cur = hdr sz False (lastp True pre)"
    using d(6) by (simp add: cur_def)
  have nx: "cur + (m cur sdiv 8) * 8 = cur + sz"
    unfolding hc using d(2,3) by (simp add: hdr_sdiv8)
  have same: "at_free m a pre sz rest" if "rest = [] \<or> snd (hd rest)"
    unfolding at_free_def using d that by auto
  have fin: ?thesis
    if "at_free (merge_next m cur) a pre szc restc" "szc + span restc = sz + span rest"
      "length restc \<le> length rest" for szc restc
    using that unfolding cur_def by blast
  show ?thesis
  proof (cases rest)
    case Nil
    then have "m (cur + sz) = 1"
      using d(8) by (simp add: cur_def)
    then have "merge_next m cur = m"
      by (simp add: merge_next_def nx Let_def signed_modulo_int_def)
    then show ?thesis
      using same Nil by (intro fin [of sz rest]) simp_all
  next
    case (Cons b2 r2)
    obtain sz2 al2 where b2: "b2 = (sz2, al2)" by (cases b2)
    from d(4,7) Cons b2 have ok2: "8 \<le> sz2" "8 dvd sz2" "sizes_ok r2"
      and hn: "m (cur + sz) = hdr sz2 al2 False"
      and c3: "chain m (cur + sz + sz2) al2 r2"
      by (auto simp: cur_def)
    show ?thesis
    proof (cases al2)
      case True
      then have "m (cur + sz) smod 2 = 1"
        unfolding hn using ok2 by (simp add: hdr_smod2)
      then have "merge_next m cur = m"
        by (simp add: merge_next_def nx Let_def)
      then show ?thesis
        using same Cons b2 True by (intro fin [of sz rest]) simp_all
    next
      case False
      define m1 where "m1 = m(cur := hdr (sz + sz2) False (lastp True pre),
                              cur + (sz + sz2) - 4 := sz + sz2)"
      have hn': "m (cur + sz) = sz2"
        using hn False by (simp add: hdr_def)
      have "m (cur + sz) smod 2 = 0" "m (cur + sz) \<noteq> 1" "(m (cur + sz) sdiv 8) * 8 = sz2"
        unfolding hn using ok2 False by (simp_all add: hdr_smod2 hdr_ne_1 hdr_sdiv8)
      moreover have "m cur + sz2 = hdr (sz + sz2) False (lastp True pre)"
        unfolding hc by (simp add: hdr_def)
      moreover have "(hdr (sz + sz2) False (lastp True pre) sdiv 8) * 8 = sz + sz2"
        using d(2,3) ok2 by (simp add: hdr_sdiv8)
      ultimately have mn: "merge_next m cur = m1"
        by (simp add: merge_next_def nx Let_def m1_def)
      have c1: "chain m1 a True pre"
        unfolding m1_def using d(1,2,5) ok2 by (simp add: chain_upd_below cur_def)
      have c2: "chain m1 (cur + (sz + sz2)) False r2"
        unfolding m1_def using c3 False d(2) ok2 by (simp add: chain_upd_above add.assoc)
      have e: "m1 (cur + (sz + sz2) + span r2) = 1"
        unfolding m1_def using d(2,8) ok2 span_nonneg [OF ok2(3)] Cons b2
        by (simp add: cur_def add.assoc)
      have f1: "m1 (cur - 4) = m (cur - 4)"
        unfolding m1_def using d(2) ok2 by simp
      have "at_free m1 a pre (sz + sz2) r2"
        unfolding at_free_def
        using d(1,2,3,9,10) ok2 c1 c2 e f1
        by (simp add: cur_def [symmetric]) (simp add: m1_def)
      then show ?thesis
        using mn Cons b2 by (intro fin [of "sz + sz2" r2]) simp_all
    qed
  qed
qed

lemma at_freeD:
  assumes "at_free m a pre szc restc"
  shows "sizes_ok pre" "8 \<le> szc" "8 dvd szc" "sizes_ok restc"
    "chain m a True pre" "m (a + span pre) = hdr szc False (lastp True pre)"
    "chain m (a + span pre + szc) False restc"
    "m (a + span pre + szc + span restc) = 1"
    "no_adj_free pre"
    "\<not> lastp True pre \<longrightarrow> m (a + span pre - 4) = fst (last pre)"
    "restc \<noteq> [] \<and> \<not> snd (hd restc) \<longrightarrow> m (a + span pre + szc - 4) = szc"
    "0 \<le> span pre" "0 \<le> span restc"
  using assms by (auto simp: at_free_def span_nonneg)

lemma merge_prev_coalescing:
  assumes F: "at_free m a pre szc restc"
  shows "\<exists>pre'. coalescing (merge_prev m (a + span pre)) a pre' restc
           \<and> span pre' = span pre + szc
           \<and> (merge_prev m (a + span pre) (a + span pre) sdiv 8) * 8 = szc"
proof -
  note d = at_freeD [OF F]
  define cur where "cur = a + span pre"
  have hc: "m cur = hdr szc False (lastp True pre)"
    using d(6) by (simp add: cur_def)
  have fin: ?thesis
    if "coalescing (merge_prev m cur) a pre' restc" "span pre' = span pre + szc"
      "(merge_prev m cur cur sdiv 8) * 8 = szc" for pre'
    using that unfolding cur_def by blast
  show ?thesis
  proof (cases "lastp True pre")
    case True
    have "m cur smod 8 \<noteq> 0"
      unfolding hc using d(2,3) True by (simp add: hdr_smod8)
    then have mp: "merge_prev m cur = m"
      by (simp add: merge_prev_def)
    have "coalescing m a (pre @ [(szc, False)]) restc"
      unfolding coalescing_def
      using d True by (simp add: no_adj_free_snoc add.assoc)
    moreover have "(m cur sdiv 8) * 8 = szc"
      unfolding hc using d(2,3) by (simp add: hdr_sdiv8)
    ultimately show ?thesis
      using mp by (intro fin [of "pre @ [(szc, False)]"]) simp_all
  next
    case False
    from lastp_False_snoc [OF False] obtain pre0 psz where pre: "pre = pre0 @ [(psz, False)]"
      by blast
    from d(1,5,9,12) pre have ok0: "sizes_ok pre0" "8 \<le> psz" "8 dvd psz"
      and c0: "chain m a True pre0"
      and hp: "m (a + span pre0) = hdr psz False (lastp True pre0)"
      and na: "no_adj_free pre0" "lastp True pre0"
      by (auto simp: no_adj_free_snoc)
    have hc': "m cur = szc"
      using hc False by (simp add: hdr_def)
    have ft: "m (cur - 4) = psz"
      using d(10) False pre by (simp add: cur_def)
    define p where "p = a + span pre0"
    have pc: "cur - psz = p" "cur = p + psz"
      by (simp_all add: p_def cur_def pre)
    define m' where "m' = m(p := hdr (psz + szc) False True, p + (psz + szc) - 4 := psz + szc)"
    have "m cur smod 8 = 0"
      unfolding hc using d(2,3) False by (simp add: hdr_smod8)
    moreover have "(m cur sdiv 8) * 8 = szc"
      unfolding hc using d(2,3) by (simp add: hdr_sdiv8)
    moreover have "m p + szc = hdr (psz + szc) False True"
      using hp na(2) by (simp add: p_def hdr_def)
    moreover have "(hdr (psz + szc) False True sdiv 8) * 8 = psz + szc"
      using ok0 d(2,3) by (simp add: hdr_sdiv8)
    ultimately have mp: "merge_prev m cur = m'"
      by (simp add: merge_prev_def Let_def ft pc(1) m'_def)
    have m'cur: "m' cur = szc"
      unfolding m'_def using hc' ok0 d(2) by (simp add: pc(2))
    have c1: "chain m' a True pre0"
      unfolding m'_def using c0 ok0 d(2) by (simp add: chain_upd_below p_def)
    have h1: "m' p = hdr (psz + szc) False True"
      unfolding m'_def using ok0 d(2) by simp
    have c2: "chain m' (p + (psz + szc)) False restc"
      unfolding m'_def using d(4,7) ok0 d(2) by (simp add: chain_upd_above cur_def [symmetric] pc(2) add.assoc)
    have e: "m' (p + (psz + szc) + span restc) = 1"
      unfolding m'_def using d(8,13) ok0 d(2) by (simp add: cur_def [symmetric] pc(2) add.assoc)
    have f: "m' (p + (psz + szc) - 4) = psz + szc"
      by (simp add: m'_def)
    let ?pre = "pre0 @ [(psz + szc, False)]"
    have S: "sizes_ok ?pre"
      using ok0 d(2,3) by simp
    have C: "chain m' a True (?pre @ restc)"
      using c1 h1 c2 na(2) by (simp add: p_def add.assoc)
    have E: "m' (a + span ?pre + span restc) = 1"
      using e by (simp add: p_def add.assoc)
    have N: "no_adj_free ?pre"
      using na by (simp add: no_adj_free_snoc)
    have Fc: "m' (a + span ?pre - 4) = fst (last ?pre)"
      using f by (simp add: p_def add.assoc)
    have "coalescing m' a ?pre restc"
      unfolding coalescing_def using S d(4) C E N Fc by blast
    moreover have "(szc sdiv 8) * 8 = szc"
      using hdr_sdiv8 [of szc False False] d(2,3) by (simp add: hdr_def)
    ultimately show ?thesis
      using mp m'cur by (intro fin [of "pre0 @ [(psz + szc, False)]"]) (simp_all add: pre)
  qed
qed

lemma coalesce_round_step:
  assumes I: "coalescing m a pre (b # rest)"
  shows "\<exists>pre' post'. coalescing (coalesce_round m (a + span pre)) a pre' post'
           \<and> a + span pre + (coalesce_round m (a + span pre) (a + span pre) sdiv 8) * 8
               = a + span pre'
           \<and> span pre' + span post' = span pre + span (b # rest)
           \<and> length post' < length (b # rest)"
proof -
  obtain sz al where b: "b = (sz, al)" by (cases b)
  note I' = I [unfolded b]
  note d = coalescingD [OF I']
  define cur where "cur = a + span pre"
  have hc: "m cur = hdr sz al (lastp True pre)"
    using d(6) by (simp add: cur_def)
  have fin: ?thesis
    if "coalescing (coalesce_round m cur) a pre' post'"
      "cur + (coalesce_round m cur cur sdiv 8) * 8 = a + span pre'"
      "span pre' + span post' = span pre + span (b # rest)"
      "length post' < length (b # rest)" for pre' post'
    using that unfolding cur_def by blast
  show ?thesis
  proof (cases al)
    case True
    have "m cur smod 2 = 1"
      unfolding hc using d(2,3) True by (simp add: hdr_smod2)
    then have cr: "coalesce_round m cur = m"
      by (simp add: coalesce_round_def)
    have "coalescing m a (pre @ [(sz, True)]) rest"
      unfolding coalescing_def using d True by (simp add: no_adj_free_snoc add.assoc)
    moreover have "(m cur sdiv 8) * 8 = sz"
      unfolding hc using d(2,3) by (simp add: hdr_sdiv8)
    ultimately show ?thesis
      using cr b by (intro fin [of "pre @ [(sz, True)]" rest]) (simp_all add: cur_def)
  next
    case False
    have "m cur smod 2 = 0"
      unfolding hc using d(2,3) False by (simp add: hdr_smod2)
    then have cr: "coalesce_round m cur = merge_prev (merge_next m cur) cur"
      by (simp add: coalesce_round_def)
    have alF: "al = False"
      using False by simp
    from merge_next_at_free [OF I' [unfolded alF]]
    obtain szc restc where F: "at_free (merge_next m cur) a pre szc restc"
      and sp: "szc + span restc = sz + span rest" and len: "length restc \<le> length rest"
      unfolding cur_def by blast
    from merge_prev_coalescing [OF F]
    obtain pre' where C: "coalescing (merge_prev (merge_next m cur) cur) a pre' restc"
      and sp': "span pre' = span pre + szc"
      and adv: "(merge_prev (merge_next m cur) cur cur sdiv 8) * 8 = szc"
      unfolding cur_def by blast
    show ?thesis
      using C sp sp' adv len b unfolding cr [symmetric]
      by (intro fin [of pre' restc]) (simp_all add: cur_def)
  qed
qed

lemma coalesce_loop_blocks:
  "coalescing m a pre post
     \<Longrightarrow> \<exists>m' bs. coalesce_loop m (a + span pre) = Some m' \<and> coalescing m' a bs []
                \<and> span bs = span pre + span post"
proof (induction "length post" arbitrary: m pre post rule: less_induct)
  case less
  show ?case
  proof (cases post)
    case Nil
    with less.prems have "m (a + span pre) = 1"
      by (simp add: coalescing_def)
    then have "coalesce_loop m (a + span pre) = Some m"
      by (subst coalesce_loop.simps) simp
    then show ?thesis
      using less.prems Nil by auto
  next
    case (Cons b rest)
    obtain sz al where b: "b = (sz, al)" by (cases b)
    note d = coalescingD [OF less.prems [unfolded Cons b]]
    have ne: "m (a + span pre) \<noteq> 1"
      unfolding d(6) using d(2) by (rule hdr_ne_1)
    from coalesce_round_step [OF less.prems [unfolded Cons]]
    obtain pre' post' where C: "coalescing (coalesce_round m (a + span pre)) a pre' post'"
      and adv: "a + span pre + (coalesce_round m (a + span pre) (a + span pre) sdiv 8) * 8
               = a + span pre'"
      and sp: "span pre' + span post' = span pre + span (b # rest)"
      and len: "length post' < length (b # rest)"
      by blast
    from len Cons have "length post' < length post" by simp
    from less.hyps [OF this C] obtain m' bs
      where r: "coalesce_loop (coalesce_round m (a + span pre)) (a + span pre') = Some m'"
        "coalescing m' a bs []" "span bs = span pre' + span post'"
      by blast
    have "coalesce_loop m (a + span pre) =
        coalesce_loop (coalesce_round m (a + span pre))
          (a + span pre + (coalesce_round m (a + span pre) (a + span pre) sdiv 8) * 8)"
      using ne by (subst coalesce_loop.simps) simp
    then have "coalesce_loop m (a + span pre) = Some m'"
      unfolding adv using r(1) by simp
    then show ?thesis
      using r(2,3) sp Cons by auto
  qed
qed

lemma coalesce_blocks:
  assumes hb: "heap_blocks s bs"
  shows "\<exists>s' bs'. coalesce s = Some (0, s') \<and> heap_blocks s' bs' \<and> no_adj_free bs'
           \<and> heapStart s' = heapStart s \<and> allocsize s' = allocsize s"
proof -
  from hb have h: "0 < heapStart s" "heapStart s mod 8 = 4" "sizes_ok bs" "bs \<noteq> []"
    "chain (mem s) (heapStart s) True bs" "span bs \<le> allocsize s"
    "mem s (heapStart s + span bs) = 1"
    unfolding heap_blocks_def by blast+
  have "coalescing (mem s) (heapStart s) [] bs"
    unfolding coalescing_def using h by simp
  from coalesce_loop_blocks [OF this] obtain m' bs'
    where r: "coalesce_loop (mem s) (heapStart s) = Some m'"
      "coalescing m' (heapStart s) bs' []" "span bs' = span bs"
    by auto
  have "8 \<le> span bs"
    using h(3,4) by (rule span_ge8)
  then have "bs' \<noteq> []"
    using r(3) by auto
  then have "heap_blocks (s\<lparr>mem := m'\<rparr>) bs'"
    unfolding heap_blocks_def using r(2,3) h(1,2,6) by (simp add: coalescing_def)
  moreover have "no_adj_free bs'"
    using r(2) by (simp add: coalescing_def)
  moreover have "coalesce s = Some (0, s\<lparr>mem := m'\<rparr>)"
    using r(1) by (simp add: coalesce_def)
  ultimately show ?thesis
    by (intro exI [of _ "s\<lparr>mem := m'\<rparr>"] exI [of _ bs']) simp
qed

section \<open>The heaps a program can reach\<close>

lemma myInit_returns_0:
  assumes "myInit s pagesize fd mmap_ptr sizeOfRegion = (0, s')"
  shows "allocated_once s = 0" "0 < sizeOfRegion" "fd \<noteq> -1"
  using assms by (auto simp: myInit_def Let_def split: if_splits)

lemma myFree_fails: "myFree s ptr = (r, s') \<Longrightarrow> r \<noteq> 0 \<Longrightarrow> r = -1 \<and> s' = s"
  by (auto simp: myFree_def Let_def split: if_splits)

lemma myAlloc_blocks_ex:
  assumes hb: "heap_blocks s bs" and int: "size0 \<le> 2147483647"
    and al: "myAlloc s size0 = Some (ptr, s')"
  shows "\<exists>bs'. heap_blocks s' bs'"
proof -
  from myAlloc_blocks [OF hb int] consider
      (null) "myAlloc s size0 = Some (NULL, s)"
    | (none) "myAlloc s size0 = None"
    | (some) s'' bs' where "myAlloc s size0 = Some (ptr, s'')" "heap_blocks s'' bs'"
    using al by (elim disjE conjE exE) simp_all
  then show ?thesis
  proof cases
    case null
    with al hb show ?thesis by auto
  next
    case none
    with al show ?thesis by simp
  next
    case some
    with al show ?thesis by auto
  qed
qed

lemma proper_blocks: "proper s \<Longrightarrow> \<exists>bs. heap_blocks s bs"
proof (induction rule: proper.induct)
  case (p_init pagesize mmap_ptr sizeOfRegion s fd s')
  note z = myInit_returns_0 [OF p_init.hyps(2)]
  from myInit_blocks [OF z(1,2) p_init.hyps(1) z(3)] obtain s''
    where "myInit s pagesize fd mmap_ptr sizeOfRegion = (0, s'')"
      "heap_blocks s'' [(allocsize s'', False)]"
    by blast
  with p_init.hyps(2) have "heap_blocks s' [(allocsize s', False)]"
    by simp
  then show ?case ..
next
  case (p_alloc s size0 ptr s')
  from p_alloc.IH obtain bs where hb: "heap_blocks s bs" ..
  from p_alloc.hyps have al: "myAlloc s size0 = Some (ptr, s')" and int: "size0 \<le> 2147483647"
    by blast+
  show ?case
    by (rule myAlloc_blocks_ex [OF hb int al])
next
  case (p_free s ptr r s')
  from p_free.IH obtain bs where hb: "heap_blocks s bs" ..
  from p_free.hyps have fr: "myFree s ptr = (r, s')" and fb: "r = 0 \<longrightarrow> frees_block s ptr"
    by blast+
  show ?case
  proof (cases "r = 0")
    case True
    with fb have "frees_block s ptr" by simp
    from frees_block_split [OF hb this] obtain pre sz post
      where bs: "bs = pre @ (sz, True) # post" and ptr: "ptr = heapStart s + span pre + 4"
      by blast
    from myFree_blocks [OF hb [unfolded bs] ptr] obtain s''
      where "myFree s ptr = (0, s'')" "heap_blocks s'' (pre @ (sz, False) # post)"
      by blast
    with fr have "heap_blocks s' (pre @ (sz, False) # post)"
      by simp
    then show ?thesis ..
  next
    case False
    with fr have "s' = s"
      using myFree_fails by blast
    with hb show ?thesis by blast
  qed
next
  case (p_coalesce s r s')
  from p_coalesce.IH obtain bs where "heap_blocks s bs" ..
  from coalesce_blocks [OF this] obtain s'' bs'
    where "coalesce s = Some (0, s'')" "heap_blocks s'' bs'"
    by blast
  moreover from p_coalesce.hyps have "coalesce s = Some (r, s')"
    by blast
  ultimately have "heap_blocks s' bs'"
    by simp
  then show ?case ..
next
  case (p_store s a v)
  from p_store.IH obtain bs where hb: "heap_blocks s bs" ..
  from p_store.hyps have "held s a"
    by blast
  from store_blocks [OF hb this] show ?case ..
qed

lemma proper_reachable: "proper s \<Longrightarrow> reachable s"
proof (induction rule: proper.induct)
  case (p_init pagesize mmap_ptr sizeOfRegion s fd s')
  from p_init.hyps show ?case
    by (rule r_init)
next
  case (p_alloc s size0 ptr s')
  from p_alloc.hyps have "myAlloc s size0 = Some (ptr, s')"
    by blast
  with p_alloc.IH show ?case
    by (rule r_alloc)
next
  case (p_free s ptr r s')
  from p_free.hyps have "myFree s ptr = (r, s')"
    by blast
  with p_free.IH show ?case
    by (rule r_free)
next
  case (p_coalesce s r s')
  from p_coalesce.hyps have "coalesce s = Some (r, s')"
    by blast
  with p_coalesce.IH show ?case
    by (rule r_coalesce)
next
  case (p_store s a v)
  from p_store.hyps have "held s a"
    by blast
  with p_store.IH show ?case
    by (rule r_store)
qed

section \<open>The heaps of the runs\<close>

lemma arena_sel [simp]:
  "heapStart (arena m) = 65540" "allocsize (arena m) = 4088" "mem (arena m) = m"
  by (simp_all add: arena_def)

lemma arena_upd [simp]: "arena m\<lparr>mem := m'\<rparr> = arena m'"
  by (simp add: arena_def)

lemma arena_eq [simp]: "arena m = arena m' \<longleftrightarrow> m = m'"
  by (simp add: arena_def)

lemma store_arena [simp]: "store (arena m) a v = arena (m(a := v))"
  by (simp add: store_def)

lemma heap1_arena: "heap1 = arena ((\<lambda>a. 0)(65540 := 4090, 69624 := 4088, 69628 := 1))"
  by (simp add: heap1_eq arena_def)

lemma heap2_arena: "heap2 = arena ((\<lambda>a. 0)(65540 := 107, 65644 := 3986, 69624 := 4088, 69628 := 1))"
  by (simp add: heap2_def arena_def)

lemmas alloc_eval = myAlloc_def round_size_def int_of_def Let_def signed_modulo_int_def
  best_fit.simps best_fit_step_def trueSize_of_def NULL_def fun_eq_iff

lemmas free_eval = NULL_def signed_modulo_int_def signed_divide_int_def fun_eq_iff

lemmas disp_eval = dispMem_def dispMem_loop.simps disp_row_def Let_def

lemma heldI:
  "dispMem s = Some rows \<Longrightarrow> (b, True, p, z) \<in> set rows \<Longrightarrow> b + 4 \<le> a \<Longrightarrow> a < b + z
     \<Longrightarrow> a mod 4 = 0 \<Longrightarrow> held s a"
  unfolding held_def by (intro exI [of _ rows] exI [of _ b] exI [of _ p] exI [of _ z]) simp

lemma frees_blockI:
  "dispMem s = Some rows \<Longrightarrow> (ptr - 4, True, p, z) \<in> set rows \<Longrightarrow> frees_block s ptr"
  unfolding frees_block_def by (intro exI [of _ rows] exI [of _ p] exI [of _ z]) simp

lemma proper_heap1: "proper heap1"
proof (rule p_init [of 4096 65536 4096 heap0 3])
  show "myInit heap0 4096 3 65536 4096 = (0, heap1)"
    by (simp add: heap1_def prod_eq_iff myInit_def heap0_def MAP_FAILED_def Let_def)
  show "os_answer 4096 65536 4096"
    by (simp add: os_answer_def signed_modulo_int_def)
qed

lemma proper_heap2: "proper heap2"
  using proper_heap1 heap2_eq by (rule p_alloc) simp

lemma reachable_heap1: "reachable heap1"
  using proper_heap1 by (rule proper_reachable)

lemma reachable_heap2: "reachable heap2"
  using proper_heap2 by (rule proper_reachable)

lemma heap2_rows: "dispMem heap2 = Some [(65540, True, True, 104), (65644, False, True, 3984)]"
  by (simp add: heap2_def disp_eval)

lemma heap3_eq:
  "heap3 = \<lparr>heapStart = 65540, allocsize = 4088, allocated_once = 1,
             mem = (\<lambda>a. 0)(65540 := 106, 65640 := 104, 65644 := 3984, 69624 := 4088, 69628 := 1)\<rparr>"
proof -
  have m: "mem heap2 = (\<lambda>a. 0)(65540 := 107, 65644 := 3986, 69624 := 4088, 69628 := 1)"
    by (simp add: heap2_def)
  have "myFree heap2 65544 = (0, heap2\<lparr>mem :=
      (\<lambda>a. 0)(65540 := 106, 65640 := 104, 65644 := 3984, 69624 := 4088, 69628 := 1)\<rparr>)"
    unfolding myFree_def Let_def m
    by (simp add: NULL_def heap2_def signed_modulo_int_def signed_divide_int_def fun_eq_iff)
  then show ?thesis
    by (simp add: heap3_def heap2_def)
qed

lemma heap4_eq: "myAlloc heap3 50 = Some (65544, heap4)"
  by (simp add: heap3_eq heap4_def myAlloc_def round_size_def int_of_def Let_def
      signed_modulo_int_def best_fit.simps best_fit_step_def trueSize_of_def NULL_def fun_eq_iff)

text \<open>The run with a store into the block before it is freed.\<close>

lemma proper_heap3s: "proper heap3s"
proof -
  have "held heap2 65596"
    using heap2_rows by (rule heldI [where b = 65540 and p = True and z = 104]) simp_all
  with proper_heap2 have s: "proper (store heap2 65596 1)"
    by (rule p_store)
  have "dispMem (store heap2 65596 1)
      = Some [(65540, True, True, 104), (65644, False, True, 3984)]"
    unfolding heap2_arena store_arena by (simp add: disp_eval)
  then have f: "frees_block (store heap2 65596 1) 65544"
    by (rule frees_blockI [where p = True and z = 104]) simp
  have "myFree (store heap2 65596 1) 65544 = (0, heap3s)"
    unfolding heap2_arena heap3s_def store_arena myFree_def Let_def arena_sel
    by (simp add: free_eval)
  with s show ?thesis
    by (rule p_free) (simp add: f)
qed

lemma reachable_heap3s: "reachable heap3s"
  using proper_heap3s by (rule proper_reachable)

lemma heap3s_rows: "dispMem heap3s = Some [(65540, False, True, 104), (65644, False, False, 3984)]"
  by (simp add: heap3s_def disp_eval)

lemma heap4s_eq: "myAlloc heap3s 50 = Some (65544, heap4s)"
  unfolding heap3s_def heap4s_def by (simp add: alloc_eval)

lemma heap4s_rows: "dispMem heap4s = Some [(65540, True, True, 56)]"
  by (simp add: heap4s_def disp_eval)

text \<open>The run with \<open>myFree\<close> at the end mark.\<close>

lemma heap5_eq: "myFree heap1 69632 = (0, heap5)"
  unfolding heap1_arena heap5_def myFree_def Let_def arena_sel by (simp add: free_eval)

lemma reachable_heap5: "reachable heap5"
  using reachable_heap1 heap5_eq by (rule r_free)

text \<open>The run with \<open>myFree\<close> at a pointer into a block.\<close>

lemma reachable_heap8: "reachable heap8"
proof -
  let ?a = "arena ((\<lambda>a. 0)(65540 := 107, 65644 := 11, 65652 := 3978, 69624 := 4088, 69628 := 1))"
  let ?b = "arena ((\<lambda>a. 0)(65540 := 107, 65644 := 11, 65652 := 11, 65660 := 3970,
                          69624 := 4088, 69628 := 1))"
  let ?c = "arena ((\<lambda>a. 0)(65540 := 107, 65644 := 11, 65648 := 8, 65652 := 11, 65660 := 3970,
                          69624 := 4088, 69628 := 1))"
  let ?d = "arena ((\<lambda>a. 0)(65540 := 107, 65644 := 11, 65648 := 8, 65652 := 11, 65656 := 1,
                          65660 := 3970, 69624 := 4088, 69628 := 1))"
  let ?e = "arena ((\<lambda>a. 0)(65540 := 107, 65548 := 97, 65644 := 11, 65648 := 8, 65652 := 11,
                          65656 := 1, 65660 := 3970, 69624 := 4088, 69628 := 1))"
  let ?f = "arena ((\<lambda>a. 0)(65540 := 107, 65548 := 96, 65640 := 96, 65644 := 9, 65648 := 8,
                          65652 := 11, 65656 := 1, 65660 := 3970, 69624 := 4088, 69628 := 1))"
  let ?g = "arena ((\<lambda>a. 0)(65540 := 107, 65548 := 97, 65640 := 96, 65644 := 9, 65648 := 8,
                          65652 := 11, 65656 := 1, 65660 := 3970, 69624 := 4088, 69628 := 1))"
  have "myAlloc heap2 4 = Some (65648, ?a)"
    unfolding heap2_arena by (simp add: alloc_eval)
  with reachable_heap2 have a: "reachable ?a"
    by (rule r_alloc)
  have "myAlloc ?a 4 = Some (65656, ?b)"
    by (simp add: alloc_eval)
  with a have b: "reachable ?b"
    by (rule r_alloc)
  have "dispMem ?b = Some [(65540, True, True, 104), (65644, True, True, 8),
      (65652, True, True, 8), (65660, False, True, 3968)]"
    by (simp add: disp_eval)
  then have "held ?b 65648"
    by (rule heldI [where b = 65644 and p = True and z = 8]) simp_all
  with b have "reachable (store ?b 65648 8)"
    by (rule r_store)
  moreover have "store ?b 65648 8 = ?c"
    by (simp add: fun_eq_iff)
  ultimately have c: "reachable ?c"
    by simp
  have "dispMem ?c = Some [(65540, True, True, 104), (65644, True, True, 8),
      (65652, True, True, 8), (65660, False, True, 3968)]"
    by (simp add: disp_eval)
  then have "held ?c 65656"
    by (rule heldI [where b = 65652 and p = True and z = 8]) simp_all
  with c have "reachable (store ?c 65656 1)"
    by (rule r_store)
  moreover have "store ?c 65656 1 = ?d"
    by (simp add: fun_eq_iff)
  ultimately have d: "reachable ?d"
    by simp
  have "dispMem ?d = Some [(65540, True, True, 104), (65644, True, True, 8),
      (65652, True, True, 8), (65660, False, True, 3968)]"
    by (simp add: disp_eval)
  then have "held ?d 65548"
    by (rule heldI [where b = 65540 and p = True and z = 104]) simp_all
  with d have "reachable (store ?d 65548 97)"
    by (rule r_store)
  moreover have "store ?d 65548 97 = ?e"
    by (simp add: fun_eq_iff)
  ultimately have e: "reachable ?e"
    by simp
  have "myFree ?e 65552 = (0, ?f)"
    unfolding myFree_def Let_def arena_sel by (simp add: free_eval)
  with e have f: "reachable ?f"
    by (rule r_free)
  have "dispMem ?f = Some [(65540, True, True, 104), (65644, True, False, 8),
      (65652, True, True, 8), (65660, False, True, 3968)]"
    by (simp add: disp_eval)
  then have "held ?f 65548"
    by (rule heldI [where b = 65540 and p = True and z = 104]) simp_all
  with f have "reachable (store ?f 65548 97)"
    by (rule r_store)
  moreover have "store ?f 65548 97 = ?g"
    by (simp add: fun_eq_iff)
  ultimately have g: "reachable ?g"
    by simp
  have "myFree ?g 65552 = (0, heap8)"
    unfolding myFree_def Let_def arena_sel heap8_def by (simp add: free_eval)
  with g show ?thesis
    by (rule r_free)
qed

lemma heap8_rows:
  "dispMem heap8 = Some [(65540, True, True, 104), (65644, True, True, 4), (65648, False, False, 8)]"
  by (simp add: heap8_def disp_eval)

lemma heap9_eq: "myAlloc heap8 1 = Some (65652, heap9)"
  unfolding heap8_def heap9_def by (simp add: alloc_eval)

text \<open>The run that ends in a merge in both directions.\<close>

lemma proper_heap6: "proper heap6"
proof -
  let ?b = "arena ((\<lambda>a. 0)(65540 := 107, 65644 := 107, 65748 := 3882, 69624 := 4088, 69628 := 1))"
  let ?c = "arena ((\<lambda>a. 0)(65540 := 107, 65644 := 107, 65748 := 107, 65852 := 3778,
                          69624 := 4088, 69628 := 1))"
  let ?d = "arena ((\<lambda>a. 0)(65540 := 106, 65640 := 104, 65644 := 105, 65748 := 107,
                          65852 := 3778, 69624 := 4088, 69628 := 1))"
  let ?e = "arena ((\<lambda>a. 0)(65540 := 106, 65640 := 104, 65644 := 104, 65744 := 104,
                          65748 := 105, 65852 := 3778, 69624 := 4088, 69628 := 1))"
  have "myAlloc heap2 100 = Some (65648, ?b)"
    unfolding heap2_arena by (simp add: alloc_eval)
  with proper_heap2 have b: "proper ?b"
    by (rule p_alloc) simp
  have "myAlloc ?b 100 = Some (65752, ?c)"
    by (simp add: alloc_eval)
  with b have c: "proper ?c"
    by (rule p_alloc) simp
  have "dispMem ?c = Some [(65540, True, True, 104), (65644, True, True, 104),
      (65748, True, True, 104), (65852, False, True, 3776)]"
    by (simp add: disp_eval)
  then have fc: "frees_block ?c 65544"
    by (rule frees_blockI [where p = True and z = 104]) simp
  have "myFree ?c 65544 = (0, ?d)"
    unfolding myFree_def Let_def arena_sel by (simp add: free_eval)
  with c have d: "proper ?d"
    by (rule p_free) (simp add: fc)
  have "dispMem ?d = Some [(65540, False, True, 104), (65644, True, False, 104),
      (65748, True, True, 104), (65852, False, True, 3776)]"
    by (simp add: disp_eval)
  then have fd: "frees_block ?d 65648"
    by (rule frees_blockI [where p = False and z = 104]) simp
  have "myFree ?d 65648 = (0, ?e)"
    unfolding myFree_def Let_def arena_sel by (simp add: free_eval)
  with d have e: "proper ?e"
    by (rule p_free) (simp add: fd)
  have "dispMem ?e = Some [(65540, False, True, 104), (65644, False, False, 104),
      (65748, True, False, 104), (65852, False, True, 3776)]"
    by (simp add: disp_eval)
  then have fe: "frees_block ?e 65752"
    by (rule frees_blockI [where p = False and z = 104]) simp
  have "myFree ?e 65752 = (0, heap6)"
    unfolding myFree_def Let_def arena_sel heap6_def by (simp add: free_eval)
  with e show ?thesis
    by (rule p_free) (simp add: fe)
qed

lemma heap6_rows:
  "dispMem heap6 = Some [(65540, False, True, 104), (65644, False, False, 104),
                         (65748, False, False, 104), (65852, False, False, 3776)]"
  by (simp add: dispMem_def heap6_def dispMem_loop.simps disp_row_def Let_def)

lemma heap7_eq: "coalesce heap6 = Some (0, heap7)"
proof -
  let ?m1 = "(\<lambda>a. 0)(65540 := 210, 65640 := 104, 65644 := 104, 65744 := 208,
                          65748 := 104, 65848 := 104, 65852 := 3776, 69624 := 4088, 69628 := 1)"
  have r1: "coalesce_round (mem heap6) 65540 = ?m1"
    unfolding heap6_def arena_sel coalesce_round_def merge_next_def merge_prev_def Let_def
    by (simp add: free_eval)
  have r2: "coalesce_round ?m1 65748 = mem heap7"
    unfolding heap7_def arena_sel coalesce_round_def merge_next_def merge_prev_def Let_def
    by (simp add: free_eval)
  have "coalesce_loop (mem heap6) 65540 = coalesce_loop ?m1 65748"
    by (subst coalesce_loop.simps) (simp add: r1, simp add: heap6_def signed_divide_int_def)
  also have "\<dots> = coalesce_loop (mem heap7) 69628"
    by (subst coalesce_loop.simps) (simp add: r2, simp add: heap7_def signed_divide_int_def)
  also have "\<dots> = Some (mem heap7)"
    by (subst coalesce_loop.simps) (simp add: heap7_def)
  finally show ?thesis
    by (simp add: coalesce_def heap6_def heap7_def)
qed

lemma heap7_rows: "dispMem heap7 = Some [(65540, False, True, 4088)]"
  by (simp add: dispMem_def heap7_def dispMem_loop.simps disp_row_def Let_def)

section \<open>coalesce after a free at the end mark\<close>

lemma coalesce_loop_stuck:
  assumes r: "coalesce_round m c = m" and z: "(m c sdiv 8) * 8 = 0" and n: "m c \<noteq> 1"
  shows "coalesce_loop m c = None"
proof (rule ccontr)
  assume "coalesce_loop m c \<noteq> None"
  then obtain y where y: "coalesce_loop m c = Some y"
    by auto
  have "\<not> (m' = m \<and> c' = c)" if "coalesce_loop m' c' = Some y'" for m' c' y'
  proof (rule coalesce_loop.raw_induct
      [where P = "\<lambda>m' c' y'. \<not> (m' = m \<and> c' = c)", OF _ that])
    fix f m' c' y'
    assume IH: "\<And>m' c' y'. f m' c' = Some y' \<Longrightarrow> \<not> (m' = m \<and> c' = c)"
      and body: "(if m' c' = 1 then Some m'
         else f (coalesce_round m' c') (c' + (coalesce_round m' c' c' sdiv 8) * 8)) = Some y'"
    show "\<not> (m' = m \<and> c' = c)"
    proof
      assume e: "m' = m \<and> c' = c"
      with body n r z have "f m c = Some y'"
        by simp
      from IH [OF this] show False
        by simp
    qed
  qed
  from this [OF y] show False
    by simp
qed

lemma coalesce_heap5: "coalesce heap5 = None"
proof -
  let ?m6 = "(\<lambda>a. 0)(65540 := 4090, 69624 := 4088, 69628 := -2)"
  have r1: "coalesce_round (mem heap5) 65540 = ?m6"
    unfolding heap5_def arena_sel coalesce_round_def merge_next_def merge_prev_def Let_def
    by (simp add: free_eval)
  have r2: "coalesce_round ?m6 69628 = mem heap5"
    unfolding heap5_def arena_sel coalesce_round_def merge_next_def merge_prev_def Let_def
    by (simp add: free_eval)
  have r3: "coalesce_round (mem heap5) 69628 = mem heap5"
    unfolding heap5_def arena_sel coalesce_round_def merge_next_def merge_prev_def Let_def
    by (simp add: free_eval)
  have "coalesce_loop (mem heap5) 65540 = coalesce_loop ?m6 69628"
    by (subst coalesce_loop.simps) (simp add: r1, simp add: heap5_def signed_divide_int_def)
  also have "\<dots> = coalesce_loop (mem heap5) 69628"
    by (subst coalesce_loop.simps) (simp add: r2, simp add: heap5_def signed_divide_int_def)
  also have "\<dots> = None"
    using r3 by (rule coalesce_loop_stuck) (simp_all add: heap5_def signed_divide_int_def)
  finally show ?thesis
    by (simp add: coalesce_def heap5_def)
qed

text \<open>
  C1: \<open>heap5\<close> is reachable, by \<open>myInit(4096)\<close> and \<open>myFree(69632)\<close>, which returns
  0 and leaves -2 where the end mark was. In that heap \<open>coalesce\<close> does not return:
  it passes the block at \<open>heapStart\<close>, takes the word -2 for the header of a free
  block of 0 bytes, and stays on it.
\<close>

theorem coalesce_after_free_at_end_mark:
  "reachable heap5 \<and> myFree heap1 69632 = (0, heap5) \<and> mem heap5 (65540 + 4088) = -2
   \<and> coalesce heap5 = None"
  using reachable_heap5 heap5_eq coalesce_heap5 by (simp add: heap5_def)

section \<open>The previous-allocated bit after a free at the end mark\<close>

lemma dispMem_loop_stuck:
  assumes z: "snd (snd (snd (disp_row c (m c)))) = 0" and n: "m c \<noteq> 1"
  shows "dispMem_loop m c = None"
proof (rule ccontr)
  assume "dispMem_loop m c \<noteq> None"
  then obtain y where y: "dispMem_loop m c = Some y"
    by auto
  have "\<not> (m' = m \<and> c' = c)" if "dispMem_loop m' c' = Some y'" for m' c' y'
  proof (rule dispMem_loop.raw_induct
      [where P = "\<lambda>m' c' y'. \<not> (m' = m \<and> c' = c)", OF _ that])
    fix f m' c' y'
    assume IH: "\<And>m' c' y'. f m' c' = Some y' \<Longrightarrow> \<not> (m' = m \<and> c' = c)"
      and body: "(if m' c' = 1 then Some []
         else Option.bind (f m' (c' + snd (snd (snd (disp_row c' (m' c'))))))
             (\<lambda>rows. Some (disp_row c' (m' c') # rows))) = Some y'"
    show "\<not> (m' = m \<and> c' = c)"
    proof
      assume e: "m' = m \<and> c' = c"
      with body n z obtain rows where "f m c = Some rows"
        by (auto simp: bind_eq_Some_conv)
      from IH [OF this] show False
        by simp
    qed
  qed
  from this [OF y] show False
    by simp
qed

lemma dispMem_heap5: "dispMem heap5 = None"
proof -
  have "dispMem_loop (mem heap5) 69624 = None"
    by (rule dispMem_loop_stuck) (simp_all add: heap5_def disp_row_def Let_def)
  then have "dispMem_loop (mem heap5) 69628 = None"
    by (subst dispMem_loop.simps) (simp add: heap5_def disp_row_def Let_def)
  then have "dispMem_loop (mem heap5) 65540 = None"
    by (subst dispMem_loop.simps) (simp add: heap5_def disp_row_def Let_def)
  then show ?thesis
    by (simp add: dispMem_def heap5_def)
qed

text \<open>
  C5: in the reachable heap \<open>heap5\<close> the block at \<open>heapStart\<close>, 4088 bytes, is
  free. The word after it is no longer the end mark: it holds -2, which reads as the
  header of a free block whose previous-allocated bit is set, and the walk of
  \<open>dispMem\<close> over the list does not end.
\<close>

theorem pbit_after_free_at_end_mark:
  "reachable heap5 \<and> myFree heap1 69632 = (0, heap5)
   \<and> disp_row 65540 (mem heap5 65540) = (65540, False, True, 4088)
   \<and> mem heap5 (65540 + 4088) \<noteq> 1
   \<and> disp_row (65540 + 4088) (mem heap5 (65540 + 4088)) = (69628, False, True, -4)
   \<and> dispMem heap5 = None"
  using reachable_heap5 heap5_eq dispMem_heap5
  by (simp add: heap5_def disp_row_def Let_def)

section \<open>myAlloc after a free at the end mark\<close>

lemma best_fit_stuck:
  assumes z: "trueSize_of (m c) = 0" and n: "m c \<noteq> 1"
  shows "best_fit m size1 c st = None"
proof (rule ccontr)
  assume "best_fit m size1 c st \<noteq> None"
  then obtain y where y: "best_fit m size1 c st = Some y"
    by auto
  have "\<not> (m' = m \<and> c' = c)" if "best_fit m' size1' c' st' = Some y'" for m' size1' c' st' y'
  proof (rule best_fit.raw_induct
      [where P = "\<lambda>m' size1' c' st' y'. \<not> (m' = m \<and> c' = c)", OF _ that])
    fix f m' size1' c' st' y'
    assume IH: "\<And>m' size1' c' st' y'. f m' size1' c' st' = Some y' \<Longrightarrow> \<not> (m' = m \<and> c' = c)"
      and body: "(if m' c' = 1 then Some st'
         else f m' size1' (c' + trueSize_of (m' c'))
                (best_fit_step size1' c' (m' c') st')) = Some y'"
    show "\<not> (m' = m \<and> c' = c)"
    proof
      assume e: "m' = m \<and> c' = c"
      with body n z have "f m size1' c (best_fit_step size1' c (m c) st') = Some y'"
        by simp
      from IH [OF this] show False
        by simp
    qed
  qed
  from this [OF y] show False
    by simp
qed

text \<open>
  In \<open>heap5\<close> a call of \<open>myAlloc\<close> returns only from the two tests on the size,
  with \<open>NULL\<close>: the search does not end.
\<close>

lemma myAlloc_heap5:
  assumes "myAlloc heap5 size0 = Some (ptr, s')"
  shows "ptr = NULL \<and> s' = heap5 \<and> (size0 \<le> 0 \<or> 4088 < round_size size0)"
proof -
  have stuck: "best_fit (mem heap5) size1 65540 st = None" for size1 st
  proof -
    have "best_fit (mem heap5) size1 69624 st = None" for st
      by (rule best_fit_stuck) (simp_all add: heap5_def trueSize_of_def)
    then have "best_fit (mem heap5) size1 69628 st = None" for st
      by (subst best_fit.simps) (simp add: heap5_def trueSize_of_def)
    then show ?thesis
      by (subst best_fit.simps) (simp add: heap5_def trueSize_of_def)
  qed
  have hs: "heapStart heap5 = 65540" "allocsize heap5 = 4088"
    by (simp_all add: heap5_def)
  from assms show ?thesis
    by (auto simp: myAlloc_def Let_def stuck hs split: if_splits)
qed

section \<open>Best fit, on any heap\<close>

lemma disp_row_eq: "disp_row a h = (a, odd h, odd (h div 2), trueSize_of h)"
proof -
  have "odd ((h - 1) div 2) = odd (h div 2)" if "odd h"
    using that by presburger
  then show ?thesis
    by (auto simp: disp_row_def trueSize_of_def Let_def and1_iff and2_iff)
qed

lemma best_fit_step_row:
  "best_fit_step size1 a h (mA, blk, pv) =
     (if even h \<and> size1 \<le> trueSize_of h \<and> (mA = -1 \<or> trueSize_of h < mA)
      then (trueSize_of h, a, if odd (h div 2) then 2 else 0)
      else (mA, blk, pv))"
  by (auto simp: best_fit_step_def smod2_eq_0 and2_iff)

lemma scanned_step:
  assumes sc: "scanned size1 seen st" and pos: "-1 < size1"
  shows "scanned size1 (seen @ [disp_row a h]) (best_fit_step size1 a h st)"
proof -
  obtain mA blk pv where st: "st = (mA, blk, pv)" by (cases st)
  let ?r = "(a, odd h, odd (h div 2), trueSize_of h)"
  have fr: "fits size1 ?r \<longleftrightarrow> even h \<and> size1 \<le> trueSize_of h"
    by (simp add: fits_def)
  from sc st consider
      (none) "mA = -1" "\<forall>r \<in> set seen. \<not> fits size1 r"
    | (some) R1 p R2 where "seen = R1 @ (blk, False, p, mA) # R2"
        "pv = (if p then 2 else 0)" "best_row size1 R1 mA R2"
    by (auto simp: scanned_def)
  then show ?thesis
  proof cases
    case none
    show ?thesis
    proof (cases "fits size1 ?r")
      case True
      then have e: "even h" "size1 \<le> trueSize_of h"
        using fr by simp_all
      have "best_row size1 seen (trueSize_of h) []"
        using none(2) e by (simp add: best_row_def)
      moreover have "seen @ [?r] = seen @ (a, False, odd (h div 2), trueSize_of h) # []"
        using e by simp
      ultimately have "scanned size1 (seen @ [?r])
          (trueSize_of h, a, if odd (h div 2) then 2 else 0)"
        unfolding scanned_def by blast
      then show ?thesis
        using e none(1) by (simp add: st best_fit_step_row disp_row_eq)
    next
      case False
      then have "scanned size1 (seen @ [?r]) (mA, blk, pv)"
        using none by (simp add: scanned_def)
      then show ?thesis
        using False fr by (auto simp: st best_fit_step_row disp_row_eq)
    qed
  next
    case some
    from some(3) pos have mA: "mA \<noteq> -1"
      by (auto simp: best_row_def)
    show ?thesis
    proof (cases "fits size1 ?r \<and> trueSize_of h < mA")
      case True
      then have e: "even h" "size1 \<le> trueSize_of h" "trueSize_of h < mA"
        using fr by simp_all
      have "best_row size1 seen (trueSize_of h) []"
        using some(1,3) e unfolding best_row_def
        by (auto simp: fits_def t_size_def)
      moreover have "seen @ [?r] = seen @ (a, False, odd (h div 2), trueSize_of h) # []"
        using e by simp
      ultimately have "scanned size1 (seen @ [?r])
          (trueSize_of h, a, if odd (h div 2) then 2 else 0)"
        unfolding scanned_def by blast
      then show ?thesis
        using e by (simp add: st best_fit_step_row disp_row_eq)
    next
      case False
      have "best_row size1 R1 mA (R2 @ [?r])"
        using some(3) False unfolding best_row_def by (auto simp: t_size_def)
      moreover have "seen @ [?r] = R1 @ (blk, False, p, mA) # (R2 @ [?r])"
        using some(1) by simp
      ultimately have "scanned size1 (seen @ [?r]) (mA, blk, pv)"
        unfolding scanned_def using some(2) by blast
      then show ?thesis
        using False fr mA by (auto simp: st best_fit_step_row disp_row_eq)
    qed
  qed
qed

lemma best_fit_scanned:
  assumes bf: "best_fit m size1 traverse st = Some y"
  shows "-1 < size1 \<longrightarrow> (\<forall>seen. scanned size1 seen st \<longrightarrow>
           (\<exists>rows. dispMem_loop m traverse = Some rows \<and> scanned size1 (seen @ rows) y))"
proof (rule best_fit.raw_induct
    [where P = "\<lambda>m size1 traverse st y. -1 < size1 \<longrightarrow> (\<forall>seen. scanned size1 seen st \<longrightarrow>
           (\<exists>rows. dispMem_loop m traverse = Some rows \<and> scanned size1 (seen @ rows) y))",
     OF _ bf])
  fix f m size1 traverse st y
  assume IH: "\<And>m size1 traverse st y. f m size1 traverse st = Some y \<Longrightarrow>
      -1 < size1 \<longrightarrow> (\<forall>seen. scanned size1 seen st \<longrightarrow>
           (\<exists>rows. dispMem_loop m traverse = Some rows \<and> scanned size1 (seen @ rows) y))"
    and body: "(if m traverse = 1 then Some st
         else f m size1 (traverse + trueSize_of (m traverse))
                (best_fit_step size1 traverse (m traverse) st)) = Some y"
  show "-1 < size1 \<longrightarrow> (\<forall>seen. scanned size1 seen st \<longrightarrow>
           (\<exists>rows. dispMem_loop m traverse = Some rows \<and> scanned size1 (seen @ rows) y))"
  proof (intro impI allI)
    fix seen
    assume pos: "-1 < size1" and sc: "scanned size1 seen st"
    show "\<exists>rows. dispMem_loop m traverse = Some rows \<and> scanned size1 (seen @ rows) y"
    proof (cases "m traverse = 1")
      case True
      with body have "y = st" by simp
      moreover have "dispMem_loop m traverse = Some []"
        using True by (subst dispMem_loop.simps) simp
      ultimately show ?thesis
        using sc by simp
    next
      case False
      let ?r = "disp_row traverse (m traverse)"
      from False body
      have "f m size1 (traverse + trueSize_of (m traverse))
              (best_fit_step size1 traverse (m traverse) st) = Some y"
        by simp
      from IH [OF this] pos scanned_step [OF sc pos, of traverse "m traverse"]
      obtain rows where r: "dispMem_loop m (traverse + trueSize_of (m traverse)) = Some rows"
        "scanned size1 ((seen @ [?r]) @ rows) y"
        by blast
      have "dispMem_loop m traverse = Some (?r # rows)"
        using False r(1) by (subst dispMem_loop.simps) (simp add: disp_row_eq)
      then show ?thesis
        using r(2) by simp
    qed
  qed
qed

lemma dispMem_loop_linked: "dispMem_loop m a = Some rows \<Longrightarrow> linked a rows"
proof (induction rows arbitrary: a)
  case Nil
  then show ?case by simp
next
  case (Cons r rs)
  have ne: "m a \<noteq> 1"
  proof
    assume "m a = 1"
    then have "dispMem_loop m a = Some []"
      by (subst dispMem_loop.simps) simp
    with Cons.prems show False by simp
  qed
  from Cons.prems ne
  have "Option.bind (dispMem_loop m (a + snd (snd (snd (disp_row a (m a))))))
          (\<lambda>rows. Some (disp_row a (m a) # rows)) = Some (r # rs)"
    by (subst (asm) dispMem_loop.simps) simp
  then have r: "r = disp_row a (m a)"
    and rs: "dispMem_loop m (a + snd (snd (snd (disp_row a (m a))))) = Some rs"
    by (auto simp: bind_eq_Some_conv)
  from Cons.IH [OF rs] show ?case
    by (simp add: r t_begin_def t_size_def disp_row_eq)
qed

lemma linked_lower:
  "linked a rs \<Longrightarrow> \<forall>r \<in> set rs. 0 < t_size r \<Longrightarrow> \<forall>r \<in> set rs. a \<le> t_begin r"
proof (induction rs arbitrary: a)
  case Nil
  then show ?case by simp
next
  case (Cons r rs)
  then have "linked (a + t_size r) rs" "\<forall>x \<in> set rs. 0 < t_size x" "0 < t_size r" "t_begin r = a"
    by simp_all
  with Cons.IH [of "a + t_size r"] show ?case
    by fastforce
qed

lemma linked_order:
  "linked a (R1 @ r # R2) \<Longrightarrow> \<forall>x \<in> set (R1 @ r # R2). 0 < t_size x
     \<Longrightarrow> (\<forall>x \<in> set R1. t_begin x < t_begin r) \<and> (\<forall>x \<in> set R2. t_begin r < t_begin x)"
proof (induction R1 arbitrary: a)
  case Nil
  then have "linked (a + t_size r) R2" "\<forall>x \<in> set R2. 0 < t_size x" "0 < t_size r" "t_begin r = a"
    by simp_all
  with linked_lower [of "a + t_size r" R2] show ?case
    by fastforce
next
  case (Cons x R1)
  then have l: "linked (a + t_size x) (R1 @ r # R2)"
    and p: "\<forall>y \<in> set (R1 @ r # R2). 0 < t_size y" and x: "0 < t_size x" "t_begin x = a"
    by simp_all
  from linked_lower [OF l p] have "a + t_size x \<le> t_begin r"
    by simp
  with Cons.IH [OF l p] x show ?case
    by simp
qed

text \<open>
  What a call of \<open>myAlloc\<close> that returns has done, on any heap: it has returned
  \<open>NULL\<close> and left the heap as it was, for one of three reasons, or it has returned
  the payload address of a free block of the list, a best fit.
\<close>

lemma myAlloc_cases:
  assumes al: "myAlloc s size0 = Some (ptr, s')"
  shows "(ptr = NULL \<and> s' = s
            \<and> (size0 \<le> 0 \<or> allocsize s < round_size size0
                \<or> (\<exists>rows. dispMem s = Some rows
                      \<and> (\<forall>r \<in> set rows. \<not> fits (round_size size0) r))))
         \<or> (0 < size0 \<and> 0 \<le> round_size size0
            \<and> (\<exists>R1 p z R2. dispMem s = Some (R1 @ (ptr - 4, False, p, z) # R2)
                 \<and> best_row (round_size size0) R1 z R2))"
proof (cases "size0 \<le> 0 \<or> allocsize s < round_size size0")
  case True
  with al have "ptr = NULL \<and> s' = s"
    by (auto simp: myAlloc_def Let_def split: if_splits)
  with True show ?thesis by blast
next
  case False
  define size1 where "size1 = round_size size0"
  from False have pos: "0 < size0" and fit: "\<not> allocsize s < size1"
    by (simp_all add: size1_def)
  from al pos fit have nn: "0 \<le> size1"
    by (auto simp: myAlloc_def Let_def size1_def split: if_splits)
  from al pos fit nn obtain mA blk pv
    where bf: "best_fit (mem s) size1 (heapStart s) (-1, NULL, 0) = Some (mA, blk, pv)"
    by (auto simp: myAlloc_def Let_def size1_def split: if_splits option.splits)
  have res: "(size1 \<le> mA \<and> ptr = blk + 4) \<or> (mA < size1 \<and> ptr = NULL \<and> s' = s)"
    using al pos fit nn bf
    by (auto simp: myAlloc_def Let_def size1_def [symmetric] split: if_splits)
  have "scanned size1 [] (-1, NULL, 0)"
    by (simp add: scanned_def)
  with best_fit_scanned [OF bf] nn
  obtain rows where rows: "dispMem_loop (mem s) (heapStart s) = Some rows"
    and sc: "scanned size1 rows (mA, blk, pv)"
    by fastforce
  from res show ?thesis
  proof
    assume a: "size1 \<le> mA \<and> ptr = blk + 4"
    with nn have "mA \<noteq> -1" by simp
    with sc obtain R1 p R2 where "rows = R1 @ (blk, False, p, mA) # R2"
      "best_row size1 R1 mA R2"
      by (auto simp: scanned_def)
    then have "dispMem s = Some (R1 @ (ptr - 4, False, p, mA) # R2) \<and> best_row size1 R1 mA R2"
      using rows a by (simp add: dispMem_def)
    then show ?thesis
      using pos nn unfolding size1_def by blast
  next
    assume b: "mA < size1 \<and> ptr = NULL \<and> s' = s"
    have "\<forall>r \<in> set rows. \<not> fits size1 r"
      using sc b by (auto simp: scanned_def best_row_def)
    then have "dispMem s = Some rows \<and> (\<forall>r \<in> set rows. \<not> fits size1 r)"
      using rows by (simp add: dispMem_def)
    then show ?thesis
      using b unfolding size1_def by blast
  qed
qed

text \<open>
  C2: on any heap, when \<open>myAlloc\<close> returns a pointer, the block it has chosen is a
  free block of the list, at least as large as the rounded size; every free block
  that is large enough and stands before it in the search is strictly larger, and
  every one after it is at least as large. So the choice is a smallest fitting block
  and, among those of its size, the first met; when all sizes are positive, as in
  every heap that is a block list, the first met is the one at the lowest address.
\<close>

theorem myAlloc_best_fit:
  assumes "myAlloc s size0 = Some (ptr, s')" and "ptr \<noteq> NULL"
  shows "\<exists>R1 p z R2.
           dispMem s = Some (R1 @ (ptr - 4, False, p, z) # R2) \<and> round_size size0 \<le> z
           \<and> (\<forall>r \<in> set R1. fits (round_size size0) r \<longrightarrow> z < t_size r)
           \<and> (\<forall>r \<in> set R2. fits (round_size size0) r \<longrightarrow> z \<le> t_size r)
           \<and> ((\<forall>r \<in> set (R1 @ (ptr - 4, False, p, z) # R2). 0 < t_size r)
                 \<longrightarrow> (\<forall>r \<in> set R1. t_begin r < ptr - 4) \<and> (\<forall>r \<in> set R2. ptr - 4 < t_begin r))"
proof -
  from myAlloc_cases [OF assms(1)] assms(2) obtain R1 p z R2
    where d: "dispMem s = Some (R1 @ (ptr - 4, False, p, z) # R2)"
      and br: "best_row (round_size size0) R1 z R2"
    by blast
  have rows: "dispMem_loop (mem s) (heapStart s) = Some (R1 @ (ptr - 4, False, p, z) # R2)"
    using d by (simp add: dispMem_def)
  have ord: "(\<forall>r \<in> set R1. t_begin r < ptr - 4) \<and> (\<forall>r \<in> set R2. ptr - 4 < t_begin r)"
    if "\<forall>r \<in> set (R1 @ (ptr - 4, False, p, z) # R2). 0 < t_size r"
    using linked_order [OF dispMem_loop_linked [OF rows] that]
    by (simp add: t_begin_def)
  have "dispMem s = Some (R1 @ (ptr - 4, False, p, z) # R2) \<and> round_size size0 \<le> z
           \<and> (\<forall>r \<in> set R1. fits (round_size size0) r \<longrightarrow> z < t_size r)
           \<and> (\<forall>r \<in> set R2. fits (round_size size0) r \<longrightarrow> z \<le> t_size r)
           \<and> ((\<forall>r \<in> set (R1 @ (ptr - 4, False, p, z) # R2). 0 < t_size r)
                 \<longrightarrow> (\<forall>r \<in> set R1. t_begin r < ptr - 4) \<and> (\<forall>r \<in> set R2. ptr - 4 < t_begin r))"
    using d br ord by (simp add: best_row_def)
  then show ?thesis by blast
qed

theorem myAlloc_best_fit_witness:
  "myAlloc heap3 50 = Some (65544, heap4) \<and> 65544 \<noteq> NULL
   \<and> (\<exists>R1 p z R2.
           dispMem heap3 = Some (R1 @ (65544 - 4, False, p, z) # R2) \<and> round_size 50 \<le> z
           \<and> (\<forall>r \<in> set R1. fits (round_size 50) r \<longrightarrow> z < t_size r)
           \<and> (\<forall>r \<in> set R2. fits (round_size 50) r \<longrightarrow> z \<le> t_size r)
           \<and> ((\<forall>r \<in> set (R1 @ (65544 - 4, False, p, z) # R2). 0 < t_size r)
                 \<longrightarrow> (\<forall>r \<in> set R1. t_begin r < 65544 - 4)
                     \<and> (\<forall>r \<in> set R2. 65544 - 4 < t_begin r)))"
proof -
  have n: "(65544::int) \<noteq> NULL"
    by (simp add: NULL_def)
  from myAlloc_best_fit [OF heap4_eq n] heap4_eq n show ?thesis
    by (intro conjI)
qed

section \<open>myAlloc returns NULL\<close>



section \<open>The address myAlloc returns\<close>

text \<open>
  C8, as it stands, fails: \<open>heap8\<close> is reachable, its second block has 4 bytes,
  and \<open>myAlloc(1)\<close> returns 65652, which is 4 modulo 8.
\<close>

theorem myAlloc_misaligned_after_free_inside_block:
  "reachable heap8
   \<and> dispMem heap8 = Some [(65540, True, True, 104), (65644, True, True, 4),
                            (65648, False, False, 8)]
   \<and> myAlloc heap8 1 = Some (65652, heap9) \<and> (65652::int) mod 8 = 4"
  using reachable_heap8 heap8_rows heap9_eq by simp

text \<open>
  C8, amended: in every heap reached by calls of which every successful \<open>myFree\<close>
  frees an allocated block of the list, \<open>myAlloc\<close> returns for every request of at
  most 2147483636 bytes, and the address it returns is a multiple of 8:
  \<open>heapStart\<close> is 4 modulo 8, and a pointer that is not \<open>NULL\<close> is 4 bytes after a
  block header that stands a multiple of 8 bytes after \<open>heapStart\<close>.
\<close>

theorem myAlloc_aligned:
  assumes "proper s"
  shows "(size0 \<le> 2147483636 \<longrightarrow> (\<exists>ptr s'. myAlloc s size0 = Some (ptr, s')))
         \<and> (\<forall>ptr s'. myAlloc s size0 = Some (ptr, s') \<longrightarrow>
               ptr mod 8 = 0 \<and> heapStart s mod 8 = 4
               \<and> (ptr \<noteq> NULL \<longrightarrow> heapStart s \<le> ptr - 4 \<and> 8 dvd ptr - 4 - heapStart s))"
proof -
  from proper_blocks [OF assms] obtain bs where hb: "heap_blocks s bs" ..
  have hs: "heapStart s mod 8 = 4"
    using hb by (simp add: heap_blocks_def)
  have ok: "sizes_ok bs"
    using hb by (simp add: heap_blocks_def)
  have ret: "\<exists>ptr s'. myAlloc s size0 = Some (ptr, s')" if "size0 \<le> 2147483636"
  proof -
    from that have "size0 \<le> 2147483647" by simp
    from myAlloc_blocks [OF hb this] that show ?thesis
      by (elim disjE conjE exE) simp_all
  qed
  have al: "ptr mod 8 = 0
      \<and> (ptr \<noteq> NULL \<longrightarrow> heapStart s \<le> ptr - 4 \<and> 8 dvd ptr - 4 - heapStart s)"
    if "myAlloc s size0 = Some (ptr, s')" for ptr s'
  proof (cases "ptr = NULL")
    case True
    then show ?thesis by (simp add: NULL_def)
  next
    case False
    with myAlloc_cases [OF that] obtain R1 p z R2
      where "dispMem s = Some (R1 @ (ptr - 4, False, p, z) # R2)"
      by blast
    then have "(ptr - 4, False, p, z) \<in> set (rows_of (heapStart s) True bs)"
      using dispMem_blocks [OF hb] by simp
    from rows_of_split [OF this] obtain pre post
      where bs: "bs = pre @ (z, False) # post" and p4: "ptr - 4 = heapStart s + span pre"
      by blast
    from ok bs have "sizes_ok pre" by simp
    then have "8 dvd span pre" "0 \<le> span pre"
      by (simp_all add: sizes_dvd_span span_nonneg)
    moreover from this hs p4 have "ptr mod 8 = 0"
      by presburger
    ultimately show ?thesis
      using p4 by simp
  qed
  show ?thesis
    using ret al hs by blast
qed

theorem myAlloc_aligned_witness:
  "proper heap3s \<and> (50::int) \<le> 2147483636 \<and> myAlloc heap3s 50 = Some (65544, heap4s)
   \<and> (65544::int) mod 8 = 0 \<and> 65544 \<noteq> NULL \<and> heapStart heap3s \<le> 65544 - 4"
proof -
  from myAlloc_aligned [OF proper_heap3s, of 50] heap4s_eq
  have "(65544::int) mod 8 = 0 \<and> (65544 \<noteq> NULL \<longrightarrow> heapStart heap3s \<le> 65544 - 4)"
    by blast
  moreover have "(65544::int) \<noteq> NULL"
    by (simp add: NULL_def)
  ultimately show ?thesis
    using proper_heap3s heap4s_eq by simp
qed

section \<open>Splitting\<close>

text \<open>
  C10: \<open>heap3s\<close> is reachable: \<open>myInit(4096)\<close>, \<open>p = myAlloc(100)\<close>, the store
  \<open>((int *)p)[13] = 1\<close> into the block, \<open>myFree(p)\<close>. It has two free blocks, of
  104 and 3984 bytes. \<open>myAlloc(50)\<close> rounds to 56 bytes and chooses the block of
  104 bytes, which is larger: the split case. It writes the header 59 of the chosen
  block, finds the stored 1 where the header of the remainder goes, 56 bytes on, and
  returns (line 143) without writing that header. The word 1 now ends the block
  list: no free block of the remaining 48 bytes exists, and the block of 3984
  bytes is no longer in the list.
\<close>

theorem myAlloc_split_without_remainder:
  "reachable heap3s
   \<and> dispMem heap3s = Some [(65540, False, True, 104), (65644, False, False, 3984)]
   \<and> round_size 50 = 56 \<and> mem heap3s (65540 + 56) = 1
   \<and> myAlloc heap3s 50 = Some (65544, heap4s)
   \<and> mem heap4s 65540 = hdr 56 True True \<and> mem heap4s (65540 + 56) = 1
   \<and> dispMem heap4s = Some [(65540, True, True, 56)]"
proof -
  have "round_size 50 = 56"
    by (simp add: round_size_def int_of_def Let_def signed_modulo_int_def)
  moreover have "mem heap3s (65540 + 56) = 1" "mem heap4s 65540 = hdr 56 True True"
    "mem heap4s (65540 + 56) = 1"
    by (simp_all add: heap3s_def heap4s_def hdr_def)
  ultimately show ?thesis
    using reachable_heap3s heap3s_rows heap4s_eq heap4s_rows by blast
qed

section \<open>The footer of a split block\<close>

text \<open>
  C3: the split case of \<open>myAlloc\<close> writes the two headers and no footer. In
  \<open>heap1\<close> the only block is free with 4088 bytes; \<open>myAlloc(100)\<close> rounds to 104
  bytes and splits it. Afterwards the chosen block has header 107 (104 bytes,
  allocated, previous allocated) and the remainder at 65644 has header 3986 (3984
  bytes, free, previous allocated), but the last word of the remainder, its footer,
  still holds 4088, the size before the split.
\<close>

theorem myAlloc_split_footer_stale:
  "myAlloc heap1 100 = Some (65544, heap2) \<and> round_size 100 = 104
   \<and> mem heap1 65540 = hdr 4088 False True
   \<and> mem heap2 65540 = hdr 104 True True
   \<and> mem heap2 (65540 + 104) = hdr 3984 False True
   \<and> mem heap2 (65540 + 104 + 3984 - 4) = 4088"
  using heap2_eq
  by (simp add: heap1_eq heap2_def hdr_def round_size_def int_of_def Let_def
      signed_modulo_int_def)

text \<open>
  C4: \<open>heap2\<close> is reachable, by \<open>myInit(4096)\<close> and \<open>myAlloc(100)\<close>, and its free
  block, 3984 bytes at 65644, has the footer 4088.
\<close>

theorem footer_differs_in_reachable_heap:
  "reachable heap2
   \<and> dispMem heap2 = Some [(65540, True, True, 104), (65644, False, True, 3984)]
   \<and> mem heap2 (65644 + 3984 - 4) = 4088"
proof -
  have "dispMem heap2 = Some [(65540, True, True, 104), (65644, False, True, 3984)]"
    by (simp add: dispMem_def heap2_def dispMem_loop.simps disp_row_def Let_def)
  moreover have "mem heap2 (65644 + 3984 - 4) = 4088"
    by (simp add: heap2_def)
  ultimately show ?thesis
    using reachable_heap2 by blast
qed

section \<open>myFree beyond the arena\<close>

text \<open>
  C6: \<open>myFree\<close> checks the pointer against \<open>heapStart\<close> only. In \<open>heap1\<close> the end
  mark stands at 69628, which is \<open>heapStart + allocsize\<close>, and the mapping ends at
  69632. \<open>myFree(69632)\<close> takes the end mark for the header of an allocated block:
  it returns 0, writes 0 over the footer of the last block and leaves -2 where the
  end mark was.
\<close>

theorem myFree_past_end:
  "heapStart heap1 + allocsize heap1 = 69628 \<and> mem heap1 69628 = 1
   \<and> myFree heap1 69632 =
       (0, heap1\<lparr>mem := (\<lambda>a. 0)(65540 := 4090, 69624 := 0, 69628 := -2)\<rparr>)"
proof -
  have m: "mem heap1 = (\<lambda>a. 0)(65540 := 4090, 69624 := 4088, 69628 := 1)"
    by (simp add: heap1_eq)
  have "myFree heap1 69632 =
       (0, heap1\<lparr>mem := (\<lambda>a. 0)(65540 := 4090, 69624 := 0, 69628 := -2)\<rparr>)"
    unfolding myFree_def Let_def m
    by (simp add: NULL_def heap1_eq signed_modulo_int_def signed_divide_int_def fun_eq_iff)
  then show ?thesis
    by (simp add: heap1_eq)
qed

section \<open>Heaps reached without a free outside the block list\<close>

text \<open>
  The heaps of \<open>proper\<close>: every call of \<open>myFree\<close> that succeeded freed an allocated
  block of the list. In such a heap the rows of \<open>dispMem\<close> begin at \<open>heapStart\<close>,
  each block begins where the one before it ends, every size is a multiple of 8 and
  at least 8, the previous-allocated bit of a block is the allocated bit of the
  block before it, and the list ends at a word 1 at most \<open>allocsize\<close> bytes after
  \<open>heapStart\<close>.
\<close>

lemma prev_free_rows: "rows_of a False bs = prev_free (rows_of a True bs)"
  by (cases bs) auto

lemma rows_linked: "linked a (rows_of a p bs)"
  by (induction bs arbitrary: a p) (auto simp: t_begin_def t_size_def)

lemma sizes_ok_mem: "sizes_ok bs \<Longrightarrow> (z, u) \<in> set bs \<Longrightarrow> 8 \<le> z \<and> 8 dvd z"
  by (induction bs) auto

lemma rows_sizes: "sizes_ok bs \<Longrightarrow> \<forall>r \<in> set (rows_of a p bs). 8 \<le> t_size r \<and> 8 dvd t_size r"
proof
  fix r
  assume ok: "sizes_ok bs" and r: "r \<in> set (rows_of a p bs)"
  obtain x u q z where "r = (x, u, q, z)" by (cases r)
  with r rows_of_blocks [of x u q z a p bs] sizes_ok_mem [OF ok, of z u]
  show "8 \<le> t_size r \<and> 8 dvd t_size r"
    by (simp add: t_size_def)
qed

lemma rows_span: "sum_list (map t_size (rows_of a p bs)) = span bs"
  by (induction bs arbitrary: a p) (auto simp: t_size_def)

lemma dispMem_proper:
  "proper s \<Longrightarrow>
     \<exists>rows. dispMem s = Some rows \<and> rows \<noteq> [] \<and> linked (heapStart s) rows
       \<and> (\<forall>r \<in> set rows. 8 \<le> t_size r \<and> 8 dvd t_size r) \<and> pbits_ok rows
       \<and> sum_list (map t_size rows) \<le> allocsize s
       \<and> mem s (heapStart s + sum_list (map t_size rows)) = 1"
proof -
  assume "proper s"
  then obtain bs where hb: "heap_blocks s bs"
    using proper_blocks by blast
  then have h: "sizes_ok bs" "bs \<noteq> []" "span bs \<le> allocsize s"
    "mem s (heapStart s + span bs) = 1"
    unfolding heap_blocks_def by blast+
  let ?rows = "rows_of (heapStart s) True bs"
  have "dispMem s = Some ?rows"
    using hb by (rule dispMem_blocks)
  moreover have "?rows \<noteq> []"
    using h(2) by (cases bs) auto
  moreover have "linked (heapStart s) ?rows"
    by (rule rows_linked)
  moreover have "\<forall>r \<in> set ?rows. 8 \<le> t_size r \<and> 8 dvd t_size r"
    using h(1) by (rule rows_sizes)
  moreover have "pbits_ok ?rows"
    by (rule pbits_ok_rows)
  moreover have "sum_list (map t_size ?rows) \<le> allocsize s"
    using h(3) by (simp add: rows_span)
  moreover have "mem s (heapStart s + sum_list (map t_size ?rows)) = 1"
    using h(4) by (simp add: rows_span)
  ultimately show ?thesis
    by blast
qed

lemma dispMem_proper_witness:
  "proper heap6
   \<and> (\<exists>rows. dispMem heap6 = Some rows \<and> rows \<noteq> [] \<and> linked (heapStart heap6) rows
       \<and> (\<forall>r \<in> set rows. 8 \<le> t_size r \<and> 8 dvd t_size r) \<and> pbits_ok rows
       \<and> sum_list (map t_size rows) \<le> allocsize heap6
       \<and> mem heap6 (heapStart heap6 + sum_list (map t_size rows)) = 1)"
  using proper_heap6 dispMem_proper [OF proper_heap6] by (rule conjI)

text \<open>
  From such a heap \<open>coalesce\<close> returns, and in the heap it leaves no two blocks next
  to each other in the list are both free.
\<close>

lemma coalesce_complete:
  "proper s \<Longrightarrow>
     \<exists>s' rows. coalesce s = Some (0, s') \<and> dispMem s' = Some rows \<and> no_adjacent_free rows"
proof -
  assume "proper s"
  then obtain bs where "heap_blocks s bs"
    using proper_blocks by blast
  from coalesce_blocks [OF this] obtain s' bs'
    where c: "coalesce s = Some (0, s')" "heap_blocks s' bs'" "no_adj_free bs'"
    by blast
  have "dispMem s' = Some (rows_of (heapStart s') True bs')"
    using c(2) by (rule dispMem_blocks)
  moreover have "no_adjacent_free (rows_of (heapStart s') True bs')"
    using c(3) by (rule no_adjacent_free_rows)
  ultimately show ?thesis
    using c(1) by blast
qed

lemma coalesce_complete_witness:
  "proper heap6
   \<and> dispMem heap6 = Some [(65540, False, True, 104), (65644, False, False, 104),
                           (65748, False, False, 104), (65852, False, False, 3776)]
   \<and> coalesce heap6 = Some (0, heap7)
   \<and> dispMem heap7 = Some [(65540, False, True, 4088)]
   \<and> (\<exists>s' rows. coalesce heap6 = Some (0, s') \<and> dispMem s' = Some rows \<and> no_adjacent_free rows)"
  using proper_heap6 heap6_rows heap7_eq heap7_rows
    coalesce_complete [OF proper_heap6]
  by (intro conjI)

lemma coalesce_loop_fixed:
  "chain m a p bs \<Longrightarrow> sizes_ok bs \<Longrightarrow> m (a + span bs) = 1 \<Longrightarrow> no_adj_free bs
     \<Longrightarrow> (bs \<noteq> [] \<and> \<not> snd (hd bs) \<longrightarrow> p) \<Longrightarrow> coalesce_loop m a = Some m"
proof (induction bs arbitrary: a p)
  case Nil
  then show ?case by (subst coalesce_loop.simps) simp
next
  case (Cons b bs)
  obtain sz al where b: "b = (sz, al)" by (cases b)
  from Cons.prems b have h: "m a = hdr sz al p" "8 \<le> sz" "8 dvd sz"
    and rest: "chain m (a + sz) al bs" "sizes_ok bs" "m (a + sz + span bs) = 1"
    and fp: "\<not> al \<longrightarrow> p"
    by (auto simp: add.assoc)
  have na: "no_adj_free bs" "bs \<noteq> [] \<and> \<not> snd (hd bs) \<longrightarrow> al"
    using Cons.prems(4) b by (cases bs; auto)+
  have adv: "(m a sdiv 8) * 8 = sz"
    unfolding h(1) using h(2,3) by (simp add: hdr_sdiv8)
  have round: "coalesce_round m a = m"
  proof (cases al)
    case True
    then have "m a smod 2 = 1"
      unfolding h(1) using h(2,3) by (simp add: hdr_smod2)
    then show ?thesis by (simp add: coalesce_round_def)
  next
    case False
    with fp have p by simp
    have "m (a + sz) smod 2 = 1"
    proof (cases bs)
      case Nil
      then show ?thesis using rest(3) by (simp add: signed_modulo_int_def)
    next
      case (Cons c cs)
      obtain sz2 al2 where c: "c = (sz2, al2)" by (cases c)
      from na(2) Cons c False have al2 by simp
      then show ?thesis
        using rest(1,2) Cons c by (simp add: hdr_smod2)
    qed
    then have mn: "merge_next m a = m"
      by (simp add: merge_next_def adv Let_def)
    have "m a smod 8 \<noteq> 0"
      unfolding h(1) using h(2,3) \<open>p\<close> by (simp add: hdr_smod8)
    then have "merge_prev m a = m"
      by (simp add: merge_prev_def)
    then show ?thesis
      using mn by (simp add: coalesce_round_def)
  qed
  have "coalesce_loop m (a + sz) = Some m"
    by (rule Cons.IH [OF rest na])
  then show ?case
    using h(1,2) round adv by (subst coalesce_loop.simps) (simp add: hdr_ne_1)
qed

text \<open>
  \<open>coalesce\<close> changes nothing when it is called a second time: in the heap that a
  call of \<open>coalesce\<close> leaves, the next call returns the same heap.
\<close>

lemma coalesce_idempotent:
  "proper s \<Longrightarrow> \<exists>s'. coalesce s = Some (0, s') \<and> coalesce s' = Some (0, s')"
proof -
  assume "proper s"
  then obtain bs where "heap_blocks s bs"
    using proper_blocks by blast
  from coalesce_blocks [OF this] obtain s' bs'
    where c: "coalesce s = Some (0, s')" "heap_blocks s' bs'" "no_adj_free bs'"
    by blast
  from c(2) have h: "chain (mem s') (heapStart s') True bs'" "sizes_ok bs'"
    "mem s' (heapStart s' + span bs') = 1"
    unfolding heap_blocks_def by blast+
  have "coalesce_loop (mem s') (heapStart s') = Some (mem s')"
    using h c(3) by (rule coalesce_loop_fixed) simp
  then have "coalesce s' = Some (0, s')"
    by (simp add: coalesce_def)
  with c(1) show ?thesis by blast
qed

lemma coalesce_idempotent_witness:
  "proper heap6 \<and> coalesce heap6 = Some (0, heap7) \<and> coalesce heap7 = Some (0, heap7)"
proof -
  from coalesce_idempotent [OF proper_heap6] heap7_eq
  have "coalesce heap7 = Some (0, heap7)"
    by auto
  then show ?thesis
    using proper_heap6 heap7_eq by blast
qed

text \<open>
  A call of \<open>myFree\<close> with the payload address of an allocated block of the list
  succeeds: it marks that block free, writes its size into its last word, clears the
  previous-allocated bit of the block after it, and merges nothing.
\<close>

lemma myFree_marks_block_free:
  assumes "proper s" and "frees_block s ptr"
  shows "\<exists>s' R1 p sz R2.
           myFree s ptr = (0, s')
           \<and> dispMem s = Some (R1 @ (ptr - 4, True, p, sz) # R2)
           \<and> dispMem s' = Some (R1 @ (ptr - 4, False, p, sz) # prev_free R2)
           \<and> mem s' (ptr - 4 + sz - 4) = sz"
proof -
  from assms(1) obtain bs where hb: "heap_blocks s bs"
    using proper_blocks by blast
  from frees_block_split [OF hb assms(2)] obtain pre sz post
    where bs: "bs = pre @ (sz, True) # post" and ptr: "ptr = heapStart s + span pre + 4"
    by blast
  from myFree_blocks [OF hb [unfolded bs] ptr] obtain s'
    where fr: "myFree s ptr = (0, s')"
      and hb': "heap_blocks s' (pre @ (sz, False) # post)"
      and hs: "heapStart s' = heapStart s"
      and ft: "mem s' (heapStart s + span pre + sz - 4) = sz"
    by blast
  define blk where "blk = heapStart s + span pre"
  have blk: "ptr - 4 = blk"
    by (simp add: ptr blk_def)
  have "dispMem s = Some (rows_of (heapStart s) True pre @ (blk, True, lastp True pre, sz)
            # rows_of (blk + sz) True post)"
    using dispMem_blocks [OF hb] by (simp add: bs blk_def)
  moreover have "dispMem s' = Some (rows_of (heapStart s) True pre @ (blk, False, lastp True pre, sz)
            # prev_free (rows_of (blk + sz) True post))"
    using dispMem_blocks [OF hb'] by (simp add: hs blk_def prev_free_rows [symmetric])
  moreover have "mem s' (blk + sz - 4) = sz"
    using ft by (simp add: blk_def)
  ultimately show ?thesis
    using fr unfolding blk by blast
qed

text \<open>
  A call of \<open>myAlloc\<close> that returns a pointer has chosen a free block of \<open>sz\<close>
  bytes, a multiple of 8 like the rounded size. When \<open>sz\<close> is larger the block is
  split: the chosen block gets the rounded size and is allocated, and a free block of
  the remaining bytes, at least 8 and a multiple of 8, follows it with its
  previous-allocated bit set, unless the word at its place holds 1: then the list
  ends after the chosen block. Otherwise the sizes are equal and the block is
  allocated whole; the block after it, if there is one, gets its previous-allocated
  bit set.
\<close>

lemma myAlloc_splits:
  assumes "proper s" and "myAlloc s size0 = Some (ptr, s')" and "ptr \<noteq> NULL"
    and "size0 \<le> 2147483647"
  shows "\<exists>R1 p sz R2.
           dispMem s = Some (R1 @ (ptr - 4, False, p, sz) # R2)
           \<and> 8 dvd round_size size0 \<and> 8 dvd sz \<and> round_size size0 \<le> sz
           \<and> (if round_size size0 < sz
               then 8 \<le> sz - round_size size0 \<and> 8 dvd sz - round_size size0
                    \<and> dispMem s' = Some (R1 @ (ptr - 4, True, p, round_size size0)
                          # (if mem s (ptr - 4 + round_size size0) = 1 then []
                             else (ptr - 4 + round_size size0, False, True,
                                     sz - round_size size0) # R2))
               else dispMem s' = Some (R1 @ (ptr - 4, True, p, sz) # prev_used R2))"
proof -
  define size1 where "size1 = round_size size0"
  from assms(1) obtain bs where hb0: "heap_blocks s bs"
    using proper_blocks by blast
  from myAlloc_blocks [OF hb0 assms(4)] assms(2,3)
  obtain pre sz post where hb: "heap_blocks s (pre @ (sz, False) # post)"
    and pos: "0 < size0" "size0 \<le> 2147483636" and le: "size1 \<le> sz"
    and ptr: "ptr = heapStart s + span pre + 4"
    and hb': "heap_blocks s' (pre @ alloc_part size1 sz (mem s (ptr - 4 + size1)) post)"
    and hs: "heapStart s' = heapStart s"
    using hb0 by (elim disjE conjE exE) (simp_all add: is_best_def size1_def)
  define blk where "blk = heapStart s + span pre"
  define R1 where "R1 = rows_of (heapStart s) True pre"
  define R2 where "R2 = rows_of (blk + sz) False post"
  define p where "p = lastp True pre"
  have blk: "ptr - 4 = blk"
    by (simp add: ptr blk_def)
  have d0: "dispMem s = Some (R1 @ (blk, False, p, sz) # R2)"
    using dispMem_blocks [OF hb] by (simp add: R1_def R2_def p_def blk_def)
  have r8: "8 dvd size1"
    using round_size_pos(2) [OF pos] by (simp add: size1_def)
  have s8: "8 dvd sz"
    using heap_blocksD(3) [OF hb] .
  have after: "if size1 < sz
               then 8 \<le> sz - size1 \<and> 8 dvd sz - size1
                    \<and> dispMem s' = Some (R1 @ (blk, True, p, size1)
                          # (if mem s (blk + size1) = 1 then []
                             else (blk + size1, False, True, sz - size1) # R2))
               else dispMem s' = Some (R1 @ (blk, True, p, sz) # prev_used R2)"
  proof (cases "size1 < sz")
    case True
    have rem: "8 \<le> sz - size1" "8 dvd sz - size1"
      using True r8 s8 by presburger+
    show ?thesis
    proof (cases "mem s (blk + size1) = 1")
      case stale: True
      then have hb2: "heap_blocks s' (pre @ [(size1, True)])"
        using hb' True by (simp add: alloc_part_def blk)
      have "dispMem s' = Some (R1 @ [(blk, True, p, size1)])"
        using dispMem_blocks [OF hb2] by (simp add: R1_def p_def blk_def hs)
      then show ?thesis
        using True rem stale by simp
    next
      case False
      then have hb2: "heap_blocks s' (pre @ (size1, True) # (sz - size1, False) # post)"
        using hb' True by (simp add: alloc_part_def blk)
      have "blk + size1 + (sz - size1) = blk + sz"
        by simp
      then have "dispMem s' = Some (R1 @ (blk, True, p, size1)
                            # (blk + size1, False, True, sz - size1) # R2)"
        using dispMem_blocks [OF hb2] by (simp add: R1_def R2_def p_def blk_def hs add.assoc)
      then show ?thesis
        using True rem False by simp
    qed
  next
    case False
    then have hb2: "heap_blocks s' (pre @ (sz, True) # post)"
      using hb' by (simp add: alloc_part_def)
    have "dispMem s' = Some (R1 @ (blk, True, p, sz) # rows_of (blk + sz) True post)"
      using dispMem_blocks [OF hb2] by (simp add: R1_def p_def blk_def hs)
    then show ?thesis
      using False by (simp add: R2_def prev_used_rows [symmetric])
  qed
  show ?thesis
    using d0 r8 s8 le after unfolding blk size1_def [symmetric] by blast
qed

lemma myAlloc_splits_witness:
  "proper heap3s \<and> myAlloc heap3s 50 = Some (65544, heap4s) \<and> 65544 \<noteq> NULL
   \<and> mem heap3s (65544 - 4 + round_size 50) = 1
   \<and> dispMem heap4s = Some [(65540, True, True, 56)]"
  using proper_heap3s heap4s_eq heap4s_rows
  by (simp add: NULL_def heap3s_def round_size_def int_of_def Let_def signed_modulo_int_def)

end
